theory Spec2Isabelle
  imports
    Main
    "HOL-Library.Multiset"
    "HOL-Library.Char_ord"
    "HOL-Library.List_Lexorder"
    "HOL-Library.Product_Lexorder"
begin

section \<open>The entity resolver of bionic (\<^verbatim>\<open>bionic/resolver.py\<close>)\<close>

text \<open>
  The theory embeds \<^verbatim>\<open>EntityResolver\<close> and \<^verbatim>\<open>TaskState\<close>. Python objects with
  identity and mutable fields (the task states) live in an arena, the list \<open>states\<close>
  of the resolver, and are referred to by their index. Every method takes the resolver
  and returns it updated, together with either the raised exception (\<open>Inl\<close>) or the
  returned value (\<open>Inr\<close>): an exception leaves the mutations made before it in place,
  as in Python.

  The collaborators whose classes are outside \<^verbatim>\<open>resolver.py\<close> (providers, tasks,
  protocols, the persistent cache) are parameters: records of the functions the resolver
  calls on them. Calls to them are recorded in the field \<open>trace\<close> of the resolver,
  next to the log messages the resolver emits.
\<close>

subsection \<open>Data model\<close>

text \<open>
  A case key maps parameter names to values; the resolver only compares case keys,
  sorts by them and prints them with \<^verbatim>\<open>%s\<close>, so it is the list of its items, each
  value given by its printed form.
\<close>

type_synonym case_key = "(string \<times> string) list"

datatype task_key = TaskKey (entity_name: string) (case_key: case_key)

type_synonym key_space = "case_key list"

datatype provenance =
  Provenance (code_id: string) (prov_case_key: case_key)
    (dep_provenances_by_name: "(string \<times> provenance) list")

datatype error =
    UndefinedEntityError string
  | ValueError
  | AssertionError
  | KeyError
  | IndexError
  | TypeError
  | AttributeError
  | RecursionError
  | ProtocolValidationError string
  | ComputeError string

record 'v protocol =
  validate :: "'v \<Rightarrow> bool"

record 'v query =
  query_name :: string
  query_protocol :: "'v protocol"
  query_case_key :: case_key
  query_provenance :: provenance

record 'v result =
  result_query :: "'v query"
  result_value :: 'v

record 'v result_group =
  results :: "'v result option list"
  rg_key_space :: key_space

record 'v task =
  keys :: "task_key list"
  dep_keys :: "task_key list"
  compute :: "'v list \<Rightarrow> error + 'v list"
  is_simple_lookup :: bool

text \<open>
  A provider; \<open>oid\<close> is the identity of the Python object (\<^verbatim>\<open>_compute_task_state\<close>
  builds a \<^verbatim>\<open>set\<close> of providers, which compares them by identity).
\<close>

record 'v provider =
  oid :: nat
  names :: "string list"
  should_persist :: bool
  get_dependency_names :: "string list"
  get_key_space :: "(string \<times> key_space) list \<Rightarrow> key_space"
  get_tasks :: "(string \<times> key_space) list \<Rightarrow> (string \<times> task_key list) list \<Rightarrow> 'v task list"
  get_code_id :: "case_key \<Rightarrow> string"
  protocol_for_name :: "string \<Rightarrow> 'v protocol"

record 'v flow_state =
  providers_by_name :: "(string \<times> 'v provider) list"

text \<open>
  \<^verbatim>\<open>class TaskState\<close>: \<open>results_by_name\<close> is \<open>None\<close> until the task has been
  evaluated; \<open>parents\<close> and \<open>children\<close> hold arena indices. A stored result is
  itself optional, because \<^verbatim>\<open>_compute_task_state\<close> stores whatever the cache's
  \<^verbatim>\<open>load\<close> returns after a save.
\<close>

record 'v task_state =
  task :: "'v task"
  results_by_name :: "(string \<rightharpoonup> 'v result option) option"
  parents :: "nat list"
  children :: "nat list"

datatype log_level = DEBUG | INFO

datatype 'v event =
    is_EvLog: EvLog log_level string
  | is_EvCompute: EvCompute nat "'v list"
  | is_EvValidate: EvValidate "'v query" 'v
  | is_EvLoad: EvLoad "'v query"
  | is_EvSave: EvSave "'v result"

text \<open>
  The environment of a resolver: the persistent cache's two methods, applied to the
  cache object (the value of \<^verbatim>\<open>core__persistent_cache\<close>) and to the store \<open>'w\<close>
  behind it, and the number of stack frames the interpreter allows to
  \<^verbatim>\<open>_populate_entity_info\<close> before it raises \<^verbatim>\<open>RecursionError\<close>.
\<close>

record ('v, 'w) env =
  recursion_limit :: nat
  cache_load :: "'v \<Rightarrow> 'w \<Rightarrow> 'v query \<Rightarrow> 'v result option"
  cache_save :: "'v \<Rightarrow> 'w \<Rightarrow> 'v result \<Rightarrow> 'w"

text \<open>
  \<^verbatim>\<open>class EntityResolver\<close>. The three dictionaries are read only after
  \<^verbatim>\<open>_get_ready_for_bootstrap_resolution\<close> has assigned them, so they start empty
  here. \<open>states\<close> is the arena of task states, \<open>world\<close> the store behind the
  persistent cache, \<open>trace\<close> the calls and log messages so far, oldest first.
\<close>

record ('v, 'w) resolver =
  flow_state :: "'v flow_state"
  is_ready_for_bootstrap_resolution :: bool
  key_spaces_by_entity_name :: "(string \<times> key_space) list"
  task_lists_by_entity_name :: "(string \<times> 'v task list) list"
  task_states_by_key :: "task_key \<rightharpoonup> nat"
  is_ready_for_full_resolution :: bool
  persistent_cache :: "'v option"
  states :: "'v task_state list"
  world :: 'w
  trace :: "'v event list"

definition init_resolver :: "'v flow_state \<Rightarrow> 'w \<Rightarrow> ('v, 'w) resolver" where
  "init_resolver fs w =
     \<lparr>flow_state = fs,
      is_ready_for_bootstrap_resolution = False,
      key_spaces_by_entity_name = [],
      task_lists_by_entity_name = [],
      task_states_by_key = Map.empty,
      is_ready_for_full_resolution = False,
      persistent_cache = None,
      states = [],
      world = w,
      trace = []\<rparr>"

subsection \<open>Helpers\<close>

text \<open>A list comprehension whose body may raise: the first exception wins.\<close>

fun map_err :: "('a \<Rightarrow> error + 'b) \<Rightarrow> 'a list \<Rightarrow> error + 'b list" where
  "map_err f [] = Inr []"
| "map_err f (x # xs) =
     (case f x of
        Inl e \<Rightarrow> Inl e
      | Inr y \<Rightarrow> (case map_err f xs of Inl e \<Rightarrow> Inl e | Inr ys \<Rightarrow> Inr (y # ys)))"

text \<open>Assignment \<^verbatim>\<open>d[k] = v\<close> on a dictionary kept in insertion order.\<close>

fun dict_set :: "'k \<Rightarrow> 'a \<Rightarrow> ('k \<times> 'a) list \<Rightarrow> ('k \<times> 'a) list" where
  "dict_set k v [] = [(k, v)]"
| "dict_set k v ((k', v') # al) =
     (if k' = k then (k, v) # al else (k', v') # dict_set k v al)"

text \<open>The unpacking \<^verbatim>\<open>x, = set(...)\<close>: exactly one distinct element, or ValueError.\<close>

definition unpack_single :: "'a list \<Rightarrow> error + 'a" where
  "unpack_single xs = (case remdups xs of [x] \<Rightarrow> Inr x | _ \<Rightarrow> Inl ValueError)"

fun join_str :: "string \<Rightarrow> string list \<Rightarrow> string" where
  "join_str sep [] = []"
| "join_str sep [x] = x"
| "join_str sep (x # y # ys) = x @ sep @ join_str sep (y # ys)"

text \<open>
  Modelled from the spec: \<^verbatim>\<open>FlowState.get_provider\<close> is not in \<^verbatim>\<open>resolver.py\<close>; a
  name with no registered provider is the UndefinedEntity failure.
\<close>

definition get_provider :: "'v flow_state \<Rightarrow> string \<Rightarrow> error + 'v provider" where
  "get_provider fs n =
     (case map_of (providers_by_name fs) n of
        None \<Rightarrow> Inl (UndefinedEntityError n)
      | Some p \<Rightarrow> Inr p)"

text \<open>
  Modelled from the spec: \<^verbatim>\<open>Task.key_for_entity_name\<close> is not in \<^verbatim>\<open>resolver.py\<close>;
  it is the one key of the task with the given entity name.
\<close>

definition key_for_entity_name :: "'v task \<Rightarrow> string \<Rightarrow> error + task_key" where
  "key_for_entity_name t n =
     (case filter (\<lambda>k. entity_name k = n) (keys t) of
        [k] \<Rightarrow> Inr k
      | _ \<Rightarrow> Inl ValueError)"

definition emit :: "'v event \<Rightarrow> ('v, 'w) resolver \<Rightarrow> ('v, 'w) resolver" where
  "emit e r = r\<lparr>trace := trace r @ [e]\<rparr>"

text \<open>\<^verbatim>\<open>EntityResolver._log\<close>\<close>

definition log :: "string \<Rightarrow> ('v, 'w) resolver \<Rightarrow> ('v, 'w) resolver" where
  "log message r =
     emit (EvLog (if is_ready_for_full_resolution r then INFO else DEBUG) message) r"

text \<open>\<^verbatim>\<open>EntityResolver._loggable_str_for_task_key\<close>\<close>

definition loggable_str_for_task_key :: "task_key \<Rightarrow> string" where
  "loggable_str_for_task_key task_key =
     entity_name task_key @ ''('' @
     join_str '', '' (map (\<lambda>(n, v). n @ ''='' @ v) (case_key task_key)) @ '')''"

text \<open>\<^verbatim>\<open>EntityResolver.entity_is_internal\<close>: \<^verbatim>\<open>entity_name.startswith('core__')\<close>\<close>

definition entity_is_internal :: "string \<Rightarrow> bool" where
  "entity_is_internal n = (take 6 n = ''core__'')"

subsection \<open>Task states\<close>

text \<open>\<^verbatim>\<open>TaskState.is_complete\<close> and \<^verbatim>\<open>TaskState.is_blocked\<close>\<close>

definition is_complete :: "('v, 'w) resolver \<Rightarrow> nat \<Rightarrow> bool" where
  "is_complete r i = (results_by_name (states r ! i) \<noteq> None)"

definition is_blocked :: "('v, 'w) resolver \<Rightarrow> nat \<Rightarrow> bool" where
  "is_blocked r i = (\<not> list_all (is_complete r) (parents (states r ! i)))"

subsection \<open>Task evaluation: \<^verbatim>\<open>_compute_task_state\<close>\<close>

text \<open>
  Lines 260 to 299, which read the resolver and change nothing: the assertion that the
  state is not blocked, the results of the dependencies, the provider and the case key
  shared by the task's keys, the provenance, one query per task key, and the strings
  used in log messages.
\<close>

record 'v prepared =
  p_dep_results :: "'v result list"
  p_provider :: "'v provider"
  p_case_key :: case_key
  p_queries :: "'v query list"
  p_strs :: "string list"

text \<open>
  \<^verbatim>\<open>self._task_states_by_key[dep_key].results_by_name[dep_key.entity_name]\<close>: a missing
  key is KeyError, subscripting \<^verbatim>\<open>None\<close> is TypeError.
\<close>

definition dep_result :: "('v, 'w) resolver \<Rightarrow> task_key \<Rightarrow> error + 'v result option" where
  "dep_result r dep_key =
     (case task_states_by_key r dep_key of
        None \<Rightarrow> Inl KeyError
      | Some j \<Rightarrow>
          (case results_by_name (states r ! j) of
             None \<Rightarrow> Inl TypeError
           | Some m \<Rightarrow>
               (case m (entity_name dep_key) of
                  None \<Rightarrow> Inl KeyError
                | Some res \<Rightarrow> Inr res)))"

text \<open>
  Modelled from the spec: \<^verbatim>\<open>Provenance.from_computation\<close> and \<^verbatim>\<open>Query\<close> are not in
  \<^verbatim>\<open>resolver.py\<close>; a provenance is the code identifier, the case key and the
  provenance of each dependency by name.
\<close>

definition from_computation :: "string \<Rightarrow> case_key \<Rightarrow> (string \<times> provenance) list \<Rightarrow> provenance" where
  "from_computation cid ck deps = Provenance cid ck deps"

definition prepare_task :: "('v, 'w) resolver \<Rightarrow> nat \<Rightarrow> error + 'v prepared" where
  "prepare_task r i =
     (if is_blocked r i then Inl AssertionError
      else
        let t = task (states r ! i) in
        case map_err (dep_result r) (dep_keys t) of
          Inl e \<Rightarrow> Inl e
        | Inr dep_results \<Rightarrow>
        case map_err (\<lambda>task_key. get_provider (flow_state r) (entity_name task_key)) (keys t) of
          Inl e \<Rightarrow> Inl e
        | Inr ps \<Rightarrow>
        case unpack_single (map oid ps) of
          Inl e \<Rightarrow> Inl e
        | Inr _ \<Rightarrow>
        case unpack_single (map case_key (keys t)) of
          Inl e \<Rightarrow> Inl e
        | Inr ck \<Rightarrow>
        case those dep_results of
          None \<Rightarrow> Inl AttributeError
        | Some deps \<Rightarrow>
            let provider = hd ps;
                provenance = from_computation (get_code_id provider ck) ck
                  (fold (\<lambda>d. dict_set (query_name (result_query d))
                                       (query_provenance (result_query d))) deps [])
            in Inr \<lparr>p_dep_results = deps,
                    p_provider = provider,
                    p_case_key = ck,
                    p_queries =
                      map (\<lambda>task_key.
                             \<lparr>query_name = entity_name task_key,
                              query_protocol = protocol_for_name provider (entity_name task_key),
                              query_case_key = ck,
                              query_provenance = provenance\<rparr>) (keys t),
                    p_strs = map loggable_str_for_task_key (keys t)\<rparr>)"

text \<open>
  Lines 307 to 317, the \<^verbatim>\<open>for ... else\<close> loop over the queries: each query is loaded
  from the cache until one is absent. The result is \<^verbatim>\<open>results_ready\<close> and
  \<^verbatim>\<open>tk_results\<close>.
\<close>

fun load_results ::
  "('v, 'w) env \<Rightarrow> 'v \<Rightarrow> ('v query \<times> string) list \<Rightarrow> 'v result option list \<Rightarrow>
   ('v, 'w) resolver \<Rightarrow> (bool \<times> 'v result option list) \<times> ('v, 'w) resolver" where
  "load_results E c [] tk_results r = ((True, tk_results), r)"
| "load_results E c ((q, task_str) # rest) tk_results r =
     (let r1 = emit (EvLoad q) r in
      case cache_load E c (world r1) q of
        Some res \<Rightarrow>
          load_results E c rest (tk_results @ [Some res])
            (log (''Loaded    '' @ task_str @ '' from file cache'') r1)
      | None \<Rightarrow> ((False, tk_results), r1))"

text \<open>
  Lines 333 to 351, the loop over the computed values: validate, build the result, save
  and reload it when the provider persists (\<open>cache\<close> is then the persistent cache),
  log, append.
\<close>

fun store_results ::
  "('v, 'w) env \<Rightarrow> 'v option \<Rightarrow> bool \<Rightarrow> ('v \<times> 'v query \<times> string) list \<Rightarrow>
   'v result option list \<Rightarrow> ('v, 'w) resolver \<Rightarrow>
   (error + 'v result option list) \<times> ('v, 'w) resolver" where
  "store_results E cache simple [] tk_results r = (Inr tk_results, r)"
| "store_results E cache simple ((v, q, task_str) # rest) tk_results r =
     (let r1 = emit (EvValidate q v) r in
      if \<not> validate (query_protocol q) v
      then (Inl (ProtocolValidationError (query_name q)), r1)
      else
        let res = \<lparr>result_query = q, result_value = v\<rparr>;
            (res', r2) =
              (case cache of
                 None \<Rightarrow> (Some res, r1)
               | Some c \<Rightarrow>
                   let r2 = (emit (EvSave res) r1)\<lparr>world := cache_save E c (world r1) res\<rparr>;
                       r3 = emit (EvLoad q) r2
                   in (cache_load E c (world r3) q, r3));
            r4 = log (if simple then ''Accessed  '' @ task_str @ '' from definition''
                      else ''Computed  '' @ task_str) r2
        in store_results E cache simple rest (tk_results @ [res']) r4)"

text \<open>Lines 321 to 351: the compute phase.\<close>

definition compute_phase ::
  "('v, 'w) env \<Rightarrow> nat \<Rightarrow> 'v prepared \<Rightarrow> 'v option \<Rightarrow> ('v, 'w) resolver \<Rightarrow>
   (error + 'v result option list) \<times> ('v, 'w) resolver" where
  "compute_phase E i p cache r =
     (let t = task (states r ! i);
          r1 = (if is_simple_lookup t then r
                else fold (\<lambda>task_str. log (''Computing '' @ task_str @ '' ...'')) (p_strs p) r);
          dep_values = map result_value (p_dep_results p);
          r2 = emit (EvCompute i dep_values) r1
      in case compute t dep_values of
           Inl e \<Rightarrow> (Inl e, r2)
         | Inr tk_values \<Rightarrow>
             if length tk_values \<noteq> length (names (p_provider p))
             then (Inl AssertionError, r2)
             else store_results E cache (is_simple_lookup t)
                    (zip tk_values (zip (p_queries p) (p_strs p))) [] r2)"

text \<open>Lines 354 to 357: the dictionary of results, and its installation in the task state.\<close>

definition results_dict :: "task_key list \<Rightarrow> 'v result option list \<Rightarrow> (string \<rightharpoonup> 'v result option)" where
  "results_dict ks tk_results =
     fold (\<lambda>(task_key, res) m. m(entity_name task_key \<mapsto> res)) (zip ks tk_results) Map.empty"

definition install_results ::
  "nat \<Rightarrow> task_key list \<Rightarrow> 'v result option list \<Rightarrow> ('v, 'w) resolver \<Rightarrow> ('v, 'w) resolver" where
  "install_results i ks tk_results r =
     r\<lparr>states := (states r)
         [i := (states r ! i)\<lparr>results_by_name := Some (results_dict ks tk_results)\<rparr>]\<rparr>"

text \<open>
  Lines 353 to 357: the assertion on the number of results, then the installation.
  The argument is the outcome of what precedes, raised exception included.
\<close>

definition finish_task ::
  "nat \<Rightarrow> task_key list \<Rightarrow> (error + 'v result option list) \<times> ('v, 'w) resolver \<Rightarrow>
   (error + unit) \<times> ('v, 'w) resolver" where
  "finish_task i ks outcome =
     (case outcome of
        (Inl e, r2) \<Rightarrow> (Inl e, r2)
      | (Inr tk_results, r2) \<Rightarrow>
          if length tk_results \<noteq> length ks then (Inl AssertionError, r2)
          else (Inr (), install_results i ks tk_results r2))"

text \<open>
  \<^verbatim>\<open>EntityResolver._compute_task_state\<close>. When the provider persists, the cache is
  read at the first \<^verbatim>\<open>load\<close> (there is at least one query, since the task's keys
  name exactly one provider); a resolver without a cache object raises AttributeError
  there.
\<close>

definition compute_task_state ::
  "('v, 'w) env \<Rightarrow> nat \<Rightarrow> ('v, 'w) resolver \<Rightarrow> (error + unit) \<times> ('v, 'w) resolver" where
  "compute_task_state E i r =
     (case prepare_task r i of
        Inl e \<Rightarrow> (Inl e, r)
      | Inr p \<Rightarrow>
          let t = task (states r ! i) in
          if should_persist (p_provider p) \<and> \<not> is_ready_for_full_resolution r
          then (Inl AssertionError, r)
          else if should_persist (p_provider p) \<and> persistent_cache r = None
          then (Inl AttributeError, r)
          else
            (case (case (if should_persist (p_provider p) then persistent_cache r else None) of
                     Some c \<Rightarrow> load_results E c (zip (p_queries p) (p_strs p)) [] r
                   | None \<Rightarrow> ((False, []), r)) of
               ((results_ready, loaded), r1) \<Rightarrow>
                 finish_task i (keys t)
                   (if results_ready then (Inr loaded, r1)
                    else compute_phase E i p
                           (if should_persist (p_provider p) then persistent_cache r else None)
                           r1)))"

subsection \<open>The work list: \<^verbatim>\<open>_compute_result_group_for_entity_name\<close>\<close>

record loop_state =
  ready_task_states :: "nat list"
  blocked_task_key_tuples :: "task_key list set"
  logged_task_keys :: "task_key set"

text \<open>Lines 219 to 225: a completed state is logged once per task key.\<close>

fun log_accessed ::
  "task_key list \<Rightarrow> task_key set \<Rightarrow> ('v, 'w) resolver \<Rightarrow> task_key set \<times> ('v, 'w) resolver" where
  "log_accessed [] logged r = (logged, r)"
| "log_accessed (task_key # ks) logged r =
     (if task_key \<notin> logged
      then log_accessed ks (insert task_key logged)
             (log (''Accessed  '' @ loggable_str_for_task_key task_key @
                   '' from in-memory cache'') r)
      else log_accessed ks logged r)"

text \<open>Lines 234 to 238: children that were blocked and no longer are become ready.\<close>

fun unblock_children ::
  "('v, 'w) resolver \<Rightarrow> nat list \<Rightarrow> nat list \<Rightarrow> task_key list set \<Rightarrow>
   nat list \<times> task_key list set" where
  "unblock_children r [] ready blocked = (ready, blocked)"
| "unblock_children r (child # cs) ready blocked =
     (if keys (task (states r ! child)) \<in> blocked \<and> \<not> is_blocked r child
      then unblock_children r cs (ready @ [child]) (blocked - {keys (task (states r ! child))})
      else unblock_children r cs ready blocked)"

text \<open>
  Lines 216 to 245, the body of the \<^verbatim>\<open>while\<close> loop, run when the list of ready
  states is not empty. \<^verbatim>\<open>pop()\<close> takes the last element of the list.
\<close>

definition loop_body ::
  "('v, 'w) env \<Rightarrow> loop_state \<Rightarrow> ('v, 'w) resolver \<Rightarrow> (error + loop_state) \<times> ('v, 'w) resolver" where
  "loop_body E ls r =
     (let state = last (ready_task_states ls);
          ready = butlast (ready_task_states ls)
      in
      if is_complete r state then
        (case log_accessed (keys (task (states r ! state))) (logged_task_keys ls) r of
           (logged, r') \<Rightarrow>
             (Inr (ls\<lparr>ready_task_states := ready, logged_task_keys := logged\<rparr>), r'))
      else if \<not> is_blocked r state then
        (case compute_task_state E state r of
           (Inl e, r') \<Rightarrow> (Inl e, r')
         | (Inr u, r') \<Rightarrow>
             (case unblock_children r' (children (states r' ! state)) ready
                     (blocked_task_key_tuples ls) of
                (ready', blocked') \<Rightarrow>
                  (Inr \<lparr>ready_task_states = ready',
                        blocked_task_key_tuples = blocked',
                        logged_task_keys =
                          logged_task_keys ls \<union> set (keys (task (states r' ! state)))\<rparr>, r')))
      else
        (Inr \<lparr>ready_task_states =
                ready @ filter (\<lambda>dep_state. \<not> is_complete r dep_state)
                               (parents (states r ! state)),
              blocked_task_key_tuples =
                insert (keys (task (states r ! state))) (blocked_task_key_tuples ls),
              logged_task_keys = logged_task_keys ls\<rparr>, r))"

text \<open>
  Lines 215 to 245, the \<^verbatim>\<open>while\<close> loop. It need not end on a cyclic graph:
  \<open>None\<close> is "does not return".
\<close>

partial_function (option) work_loop ::
  "('v, 'w) env \<Rightarrow> loop_state \<Rightarrow> ('v, 'w) resolver \<Rightarrow>
   ((error + loop_state) \<times> ('v, 'w) resolver) option" where
  "work_loop E ls r =
     (if ready_task_states ls = [] then Some (Inr ls, r)
      else
        case loop_body E ls r of
          (Inl e, r') \<Rightarrow> Some (Inl e, r')
        | (Inr ls', r') \<Rightarrow> work_loop E ls' r')"

declare work_loop.simps [code]

text \<open>\<^verbatim>\<open>self._task_states_by_key[task.keys[0]]\<close>\<close>

definition first_key_state :: "('v, 'w) resolver \<Rightarrow> 'v task \<Rightarrow> error + nat" where
  "first_key_state r t =
     (case keys t of
        [] \<Rightarrow> Inl IndexError
      | k # _ \<Rightarrow> (case task_states_by_key r k of None \<Rightarrow> Inl KeyError | Some i \<Rightarrow> Inr i))"

text \<open>\<^verbatim>\<open>state.results_by_name[entity_name]\<close> of line 253\<close>

definition state_result :: "('v, 'w) resolver \<Rightarrow> string \<Rightarrow> nat \<Rightarrow> error + 'v result option" where
  "state_result r n i =
     (case results_by_name (states r ! i) of
        None \<Rightarrow> Inl TypeError
      | Some m \<Rightarrow> (case m n of None \<Rightarrow> Inl KeyError | Some res \<Rightarrow> Inr res))"

definition requested_task_states :: "('v, 'w) resolver \<Rightarrow> string \<Rightarrow> error + nat list" where
  "requested_task_states r n =
     (case map_of (task_lists_by_entity_name r) n of
        None \<Rightarrow> Inl (UndefinedEntityError n)
      | Some tasks \<Rightarrow> map_err (first_key_state r) tasks)"

definition initial_loop_state :: "nat list \<Rightarrow> loop_state" where
  "initial_loop_state requested =
     \<lparr>ready_task_states = requested, blocked_task_key_tuples = {}, logged_task_keys = {}\<rparr>"

definition compute_result_group_for_entity_name ::
  "('v, 'w) env \<Rightarrow> string \<Rightarrow> ('v, 'w) resolver \<Rightarrow>
   ((error + 'v result_group) \<times> ('v, 'w) resolver) option" where
  "compute_result_group_for_entity_name E n r =
     (case requested_task_states r n of
        Inl e \<Rightarrow> Some (Inl e, r)
      | Inr requested \<Rightarrow>
          (case work_loop E (initial_loop_state requested) r of
             None \<Rightarrow> None
           | Some (Inl e, r') \<Rightarrow> Some (Inl e, r')
           | Some (Inr ls, r') \<Rightarrow>
               if blocked_task_key_tuples ls \<noteq> {} then Some (Inl AssertionError, r')
               else if \<not> list_all (is_complete r') requested then Some (Inl AssertionError, r')
               else
                 (case map_err (state_result r' n) requested of
                    Inl e \<Rightarrow> Some (Inl e, r')
                  | Inr rs \<Rightarrow>
                      (case map_of (key_spaces_by_entity_name r') n of
                         None \<Rightarrow> Some (Inl KeyError, r')
                       | Some ks \<Rightarrow> Some (Inr \<lparr>results = rs, rg_key_space = ks\<rparr>, r')))))"

subsection \<open>Building the graph\<close>

text \<open>A \<^verbatim>\<open>for\<close> loop whose body may raise: the loop stops at the first exception.\<close>

fun for_each ::
  "('a \<Rightarrow> 's \<Rightarrow> (error + unit) \<times> 's) \<Rightarrow> 'a list \<Rightarrow> 's \<Rightarrow> (error + unit) \<times> 's" where
  "for_each body [] s = (Inr (), s)"
| "for_each body (x # xs) s =
     (case body x s of
        (Inl e, s') \<Rightarrow> (Inl e, s')
      | (Inr u, s') \<Rightarrow> for_each body xs s')"

text \<open>A dictionary comprehension over (key, value) pairs.\<close>

definition dict_of :: "('k \<times> 'a) list \<Rightarrow> ('k \<times> 'a) list" where
  "dict_of kvs = fold (\<lambda>(k, v). dict_set k v) kvs []"

text \<open>\<^verbatim>\<open>d[k]\<close> on a dictionary: KeyError when the key is missing.\<close>

definition dict_get :: "('k \<times> 'a) list \<Rightarrow> 'k \<Rightarrow> error + 'a" where
  "dict_get d k = (case map_of d k of None \<Rightarrow> Inl KeyError | Some v \<Rightarrow> Inr v)"

text \<open>
  \<^verbatim>\<open>EntityResolver._populate_entity_info\<close>. The first argument is the number of
  stack frames left: the method calls itself for each dependency name, and Python
  raises RecursionError when the frames run out. \<open>populate_deps\<close> is the loop of
  lines 163 and 164.
\<close>

fun populate_entity_info ::
    "nat \<Rightarrow> string \<Rightarrow> ('v, 'w) resolver \<Rightarrow> (error + unit) \<times> ('v, 'w) resolver"
  and populate_deps ::
    "nat \<Rightarrow> string list \<Rightarrow> ('v, 'w) resolver \<Rightarrow> (error + unit) \<times> ('v, 'w) resolver" where
  "populate_entity_info 0 n r = (Inl RecursionError, r)"
| "populate_entity_info (Suc d) n r =
     (if n \<in> fst ` set (task_lists_by_entity_name r) then (Inr (), r)
      else
        case get_provider (flow_state r) n of
          Inl e \<Rightarrow> (Inl e, r)
        | Inr provider \<Rightarrow>
            let dep_names = get_dependency_names provider in
            case populate_deps d dep_names r of
              (Inl e, r1) \<Rightarrow> (Inl e, r1)
            | (Inr u, r1) \<Rightarrow>
            case map_err (\<lambda>dep_name.
                   case dict_get (key_spaces_by_entity_name r1) dep_name of
                     Inl e \<Rightarrow> Inl e
                   | Inr ks \<Rightarrow> Inr (dep_name, ks)) dep_names of
              Inl e \<Rightarrow> (Inl e, r1)
            | Inr dep_key_spaces \<Rightarrow>
            case map_err (\<lambda>dep_name.
                   case dict_get (task_lists_by_entity_name r1) dep_name of
                     Inl e \<Rightarrow> Inl e
                   | Inr ts \<Rightarrow>
                       (case map_err (\<lambda>t. key_for_entity_name t dep_name) ts of
                          Inl e \<Rightarrow> Inl e
                        | Inr ks \<Rightarrow> Inr (dep_name, ks))) dep_names of
              Inl e \<Rightarrow> (Inl e, r1)
            | Inr dep_task_key_lists \<Rightarrow>
                let dep_key_spaces_by_name = dict_of dep_key_spaces;
                    dep_task_key_lists_by_name = dict_of dep_task_key_lists
                in (Inr (),
                    r1\<lparr>key_spaces_by_entity_name :=
                         dict_set n (get_key_space provider dep_key_spaces_by_name)
                           (key_spaces_by_entity_name r1),
                       task_lists_by_entity_name :=
                         dict_set n (get_tasks provider dep_key_spaces_by_name
                                       dep_task_key_lists_by_name)
                           (task_lists_by_entity_name r1)\<rparr>))"
| "populate_deps d [] r = (Inr (), r)"
| "populate_deps d (dep_name # rest) r =
     (case populate_entity_info d dep_name r of
        (Inl e, r') \<Rightarrow> (Inl e, r')
      | (Inr u, r') \<Rightarrow> populate_deps d rest r')"

text \<open>Lines 140 to 142: a new task state, registered under each key of its task.\<close>

definition add_task_state :: "'v task \<Rightarrow> ('v, 'w) resolver \<Rightarrow> ('v, 'w) resolver" where
  "add_task_state t r =
     (let i = length (states r) in
      r\<lparr>states := states r @ [\<lparr>task = t, results_by_name = None, parents = [], children = []\<rparr>],
        task_states_by_key := fold (\<lambda>key m. m(key \<mapsto> i)) (keys t) (task_states_by_key r)\<rparr>)"

text \<open>Lines 149 to 152: one dependency edge.\<close>

definition connect_dep ::
  "nat \<Rightarrow> task_key \<Rightarrow> ('v, 'w) resolver \<Rightarrow> (error + unit) \<times> ('v, 'w) resolver" where
  "connect_dep task_state dep_key r =
     (case task_states_by_key r dep_key of
        None \<Rightarrow> (Inl KeyError, r)
      | Some dep_state \<Rightarrow>
          let sts1 = (states r)
                [task_state := (states r ! task_state)
                   \<lparr>parents := parents (states r ! task_state) @ [dep_state]\<rparr>];
              sts2 = sts1
                [dep_state := (sts1 ! dep_state)
                   \<lparr>children := children (sts1 ! dep_state) @ [task_state]\<rparr>]
          in (Inr (), r\<lparr>states := sts2\<rparr>))"

text \<open>Lines 147 to 152: the edges of one task.\<close>

definition connect_task :: "'v task \<Rightarrow> ('v, 'w) resolver \<Rightarrow> (error + unit) \<times> ('v, 'w) resolver" where
  "connect_task t r =
     (case first_key_state r t of
        Inl e \<Rightarrow> (Inl e, r)
      | Inr task_state \<Rightarrow> for_each (connect_dep task_state) (dep_keys t) r)"

text \<open>
  \<^verbatim>\<open>EntityResolver._get_ready_for_bootstrap_resolution\<close>. The task states of an
  earlier, failed attempt are unreachable once \<^verbatim>\<open>_task_states_by_key\<close> is reset, so
  the arena restarts empty.
\<close>

definition get_ready_for_bootstrap_resolution ::
  "('v, 'w) env \<Rightarrow> ('v, 'w) resolver \<Rightarrow> (error + unit) \<times> ('v, 'w) resolver" where
  "get_ready_for_bootstrap_resolution E r =
     (if is_ready_for_bootstrap_resolution r then (Inr (), r)
      else
        case for_each (populate_entity_info (recursion_limit E))
               (map fst (providers_by_name (flow_state r)))
               (r\<lparr>key_spaces_by_entity_name := [], task_lists_by_entity_name := []\<rparr>) of
          (Inl e, r1) \<Rightarrow> (Inl e, r1)
        | (Inr u, r1) \<Rightarrow>
            let all_tasks = concat (map snd (task_lists_by_entity_name r1));
                r2 = fold add_task_state all_tasks
                       (r1\<lparr>task_states_by_key := Map.empty, states := []\<rparr>)
            in case for_each connect_task all_tasks r2 of
                 (Inl e, r3) \<Rightarrow> (Inl e, r3)
               | (Inr u, r3) \<Rightarrow> (Inr (), r3\<lparr>is_ready_for_bootstrap_resolution := True\<rparr>))"

subsection \<open>Readiness and \<^verbatim>\<open>resolve\<close>\<close>

text \<open>
  \<^verbatim>\<open>EntityResolver._bootstrap_singleton\<close>; reading \<^verbatim>\<open>.value\<close> of a result that is
  \<^verbatim>\<open>None\<close> is AttributeError.
\<close>

definition bootstrap_singleton ::
  "('v, 'w) env \<Rightarrow> string \<Rightarrow> ('v, 'w) resolver \<Rightarrow> ((error + 'v) \<times> ('v, 'w) resolver) option" where
  "bootstrap_singleton E n r =
     (case compute_result_group_for_entity_name E n r of
        None \<Rightarrow> None
      | Some (Inl e, r') \<Rightarrow> Some (Inl e, r')
      | Some (Inr result_group, r') \<Rightarrow>
          if length (results result_group) = 0 then Some (Inl ValueError, r')
          else if length (results result_group) > 1 then
            (case those (results result_group) of
               None \<Rightarrow> Some (Inl AttributeError, r')
             | Some rs \<Rightarrow> Some (Inl ValueError, r'))
          else
            (case hd (results result_group) of
               None \<Rightarrow> Some (Inl AttributeError, r')
             | Some res \<Rightarrow> Some (Inr (result_value res), r')))"

text \<open>\<^verbatim>\<open>EntityResolver._get_ready_for_full_resolution\<close>\<close>

definition get_ready_for_full_resolution ::
  "('v, 'w) env \<Rightarrow> ('v, 'w) resolver \<Rightarrow> ((error + unit) \<times> ('v, 'w) resolver) option" where
  "get_ready_for_full_resolution E r =
     (if is_ready_for_full_resolution r then Some (Inr (), r)
      else
        case get_ready_for_bootstrap_resolution E r of
          (Inl e, r1) \<Rightarrow> Some (Inl e, r1)
        | (Inr u, r1) \<Rightarrow>
            (case bootstrap_singleton E ''core__persistent_cache'' r1 of
               None \<Rightarrow> None
             | Some (Inl e, r2) \<Rightarrow> Some (Inl e, r2)
             | Some (Inr v, r2) \<Rightarrow>
                 Some (Inr (), r2\<lparr>persistent_cache := Some v,
                                  is_ready_for_full_resolution := True\<rparr>)))"

text \<open>\<^verbatim>\<open>EntityResolver.get_ready\<close>\<close>

definition get_ready ::
  "('v, 'w) env \<Rightarrow> ('v, 'w) resolver \<Rightarrow> ((error + unit) \<times> ('v, 'w) resolver) option" where
  "get_ready E r = get_ready_for_full_resolution E r"

text \<open>\<^verbatim>\<open>EntityResolver.resolve\<close>\<close>

definition resolve ::
  "('v, 'w) env \<Rightarrow> string \<Rightarrow> ('v, 'w) resolver \<Rightarrow>
   ((error + 'v result_group) \<times> ('v, 'w) resolver) option" where
  "resolve E n r =
     (case get_ready E r of
        None \<Rightarrow> None
      | Some (Inl e, r1) \<Rightarrow> Some (Inl e, r1)
      | Some (Inr u, r1) \<Rightarrow> compute_result_group_for_entity_name E n r1)"

subsection \<open>\<^verbatim>\<open>export_dag\<close>\<close>

text \<open>
  The graph built by \<^verbatim>\<open>export_dag\<close>. Modelled from the spec: \<^verbatim>\<open>networkx\<close> is not
  part of the repository; a directed graph is its nodes with their attributes and its
  edges, \<^verbatim>\<open>add_node\<close> sets the attributes of a node, and \<^verbatim>\<open>add_edge\<close> adds the
  edge and those of its two ends that are not nodes yet, without attributes.
\<close>

record node_attrs =
  node_name :: string
  node_entity_name :: string
  node_case_key :: case_key
  node_task_ix :: nat

record dag =
  dag_nodes :: "(task_key \<times> node_attrs option) list"
  dag_edges :: "(task_key \<times> task_key) list"

definition add_node :: "task_key \<Rightarrow> node_attrs \<Rightarrow> dag \<Rightarrow> dag" where
  "add_node k a g = g\<lparr>dag_nodes := dict_set k (Some a) (dag_nodes g)\<rparr>"

definition touch_node :: "task_key \<Rightarrow> (task_key \<times> node_attrs option) list \<Rightarrow> (task_key \<times> node_attrs option) list" where
  "touch_node k ns = (if k \<in> fst ` set ns then ns else ns @ [(k, None)])"

definition add_edge :: "task_key \<Rightarrow> task_key \<Rightarrow> dag \<Rightarrow> dag" where
  "add_edge u v g =
     g\<lparr>dag_nodes := touch_node v (touch_node u (dag_nodes g)),
       dag_edges := (if (u, v) \<in> set (dag_edges g) then dag_edges g else dag_edges g @ [(u, v)])\<rparr>"

text \<open>Decimal digits of a number, for \<^verbatim>\<open>'{task_ix}'\<close>.\<close>

fun show_nat :: "nat \<Rightarrow> string" where
  "show_nat n =
     (if n < 10 then [char_of (48 + n)]
      else show_nat (n div 10) @ [char_of (48 + n mod 10)])"

declare show_nat.simps [simp del]

text \<open>
  The local function \<^verbatim>\<open>should_include_entity_name(name)\<close> of lines 66 and 67. Its
  body reads \<^verbatim>\<open>entity_name\<close>, the variable of the loop of line 73 in the enclosing
  method, and not its parameter \<^verbatim>\<open>name\<close>; the second argument here is that variable's
  current value.
\<close>

definition should_include_entity_name :: "bool \<Rightarrow> string \<Rightarrow> string \<Rightarrow> bool" where
  "should_include_entity_name include_core entity_name_var name =
     (include_core \<or> \<not> entity_is_internal entity_name_var)"

text \<open>A \<^verbatim>\<open>for\<close> loop over a pure accumulator whose body may raise.\<close>

fun fold_err :: "('a \<Rightarrow> 'g \<Rightarrow> error + 'g) \<Rightarrow> 'a list \<Rightarrow> 'g \<Rightarrow> error + 'g" where
  "fold_err body [] g = Inr g"
| "fold_err body (x # xs) g =
     (case body x g of Inl e \<Rightarrow> Inl e | Inr g' \<Rightarrow> fold_err body xs g')"

text \<open>Lines 100 to 106: the edges from one task key to the keys of one child state.\<close>

definition add_child_edges :: "bool \<Rightarrow> string \<Rightarrow> task_key \<Rightarrow> 'v task \<Rightarrow> dag \<Rightarrow> dag" where
  "add_child_edges include_core entity_name_var task_key child_task g =
     fold (\<lambda>child_task_key g.
             if \<not> should_include_entity_name include_core entity_name_var
                     (entity_name child_task_key) then g
             else if task_key \<notin> set (dep_keys child_task) then g
             else add_edge task_key child_task_key g)
          (keys child_task) g"

text \<open>Lines 85 to 106: the node of one task and its outgoing edges.\<close>

definition export_task ::
  "bool \<Rightarrow> ('v, 'w) resolver \<Rightarrow> string \<Rightarrow> bool \<Rightarrow> nat \<times> 'v task \<Rightarrow> dag \<Rightarrow> error + dag" where
  "export_task include_core r entity_name_var single ix_task g =
     (case ix_task of (task_ix, t) \<Rightarrow>
      case key_for_entity_name t entity_name_var of
        Inl e \<Rightarrow> Inl e
      | Inr task_key \<Rightarrow>
          (case task_states_by_key r task_key of
             None \<Rightarrow> Inl KeyError
           | Some state \<Rightarrow>
               let node_name =
                     (if single then entity_name_var
                      else entity_name_var @ ''['' @ show_nat task_ix @ '']'');
                   g1 = add_node task_key
                          \<lparr>node_name = node_name,
                           node_entity_name = entity_name_var,
                           node_case_key = case_key task_key,
                           node_task_ix = task_ix\<rparr> g
               in Inr (fold (\<lambda>child_state.
                               add_child_edges include_core entity_name_var task_key
                                 (task (states r ! child_state)))
                            (children (states r ! state)) g1)))"

text \<open>
  Lines 75 to 106: one entity. The sort key \<^verbatim>\<open>task.keys[0].case_key\<close> raises
  IndexError on a task without keys.
\<close>

definition export_entity ::
  "bool \<Rightarrow> ('v, 'w) resolver \<Rightarrow> string \<times> 'v task list \<Rightarrow> dag \<Rightarrow> error + dag" where
  "export_entity include_core r item g =
     (case item of (entity_name_var, tasks) \<Rightarrow>
      if \<not> should_include_entity_name include_core entity_name_var entity_name_var then Inr g
      else if \<exists>t \<in> set tasks. keys t = [] then Inl IndexError
      else
        fold_err (export_task include_core r entity_name_var (length tasks = 1))
          (enumerate 0 (sort_key (\<lambda>t. case_key (hd (keys t))) tasks)) g)"

text \<open>\<^verbatim>\<open>EntityResolver.export_dag\<close>\<close>

definition export_dag ::
  "('v, 'w) env \<Rightarrow> bool \<Rightarrow> ('v, 'w) resolver \<Rightarrow> ((error + dag) \<times> ('v, 'w) resolver) option" where
  "export_dag E include_core r =
     (case get_ready E r of
        None \<Rightarrow> None
      | Some (Inl e, r') \<Rightarrow> Some (Inl e, r')
      | Some (Inr u, r') \<Rightarrow>
          Some (fold_err (export_entity include_core r') (task_lists_by_entity_name r')
                  \<lparr>dag_nodes = [], dag_edges = []\<rparr>, r'))"

section \<open>Notions used in the properties\<close>

text \<open>
  \<open>same_graph r r'\<close>: the two resolvers have the same flow, readiness, dictionaries
  and cache object, and their task states have the same tasks and edges; only results,
  the store behind the cache and the trace may differ.
\<close>

definition same_graph :: "('v, 'w) resolver \<Rightarrow> ('v, 'w) resolver \<Rightarrow> bool" where
  "same_graph r r' \<longleftrightarrow>
     flow_state r' = flow_state r \<and>
     is_ready_for_bootstrap_resolution r' = is_ready_for_bootstrap_resolution r \<and>
     key_spaces_by_entity_name r' = key_spaces_by_entity_name r \<and>
     task_lists_by_entity_name r' = task_lists_by_entity_name r \<and>
     task_states_by_key r' = task_states_by_key r \<and>
     is_ready_for_full_resolution r' = is_ready_for_full_resolution r \<and>
     persistent_cache r' = persistent_cache r \<and>
     length (states r') = length (states r) \<and>
     (\<forall>j. task (states r' ! j) = task (states r ! j) \<and>
          parents (states r' ! j) = parents (states r ! j) \<and>
          children (states r' ! j) = children (states r ! j))"

text \<open>\<open>keeps_results r r'\<close>: every state complete in \<open>r\<close> has the same results in \<open>r'\<close>.\<close>

definition keeps_results :: "('v, 'w) resolver \<Rightarrow> ('v, 'w) resolver \<Rightarrow> bool" where
  "keeps_results r r' \<longleftrightarrow>
     (\<forall>j. results_by_name (states r ! j) \<noteq> None \<longrightarrow>
          results_by_name (states r' ! j) = results_by_name (states r ! j))"

text \<open>\<open>only_io r r'\<close>: at most the store behind the cache and the trace differ.\<close>

definition only_io :: "('v, 'w) resolver \<Rightarrow> ('v, 'w) resolver \<Rightarrow> bool" where
  "only_io r r' \<longleftrightarrow>
     flow_state r' = flow_state r \<and>
     is_ready_for_bootstrap_resolution r' = is_ready_for_bootstrap_resolution r \<and>
     key_spaces_by_entity_name r' = key_spaces_by_entity_name r \<and>
     task_lists_by_entity_name r' = task_lists_by_entity_name r \<and>
     task_states_by_key r' = task_states_by_key r \<and>
     is_ready_for_full_resolution r' = is_ready_for_full_resolution r \<and>
     persistent_cache r' = persistent_cache r \<and>
     states r' = states r"

text \<open>
  The evaluation of a prepared task reaches the compute phase (line 321 with
  \<^verbatim>\<open>results_ready\<close> false): the provider does not persist, or the resolver is
  full-ready with a cache and the cache has no result for one of the queries.
\<close>

definition reaches_compute :: "('v, 'w) env \<Rightarrow> ('v, 'w) resolver \<Rightarrow> 'v prepared \<Rightarrow> bool" where
  "reaches_compute E r p \<longleftrightarrow>
     (should_persist (p_provider p) \<longrightarrow>
        is_ready_for_full_resolution r \<and>
        (case persistent_cache r of
           None \<Rightarrow> False
         | Some c \<Rightarrow> \<exists>q \<in> set (p_queries p). Option.is_none (cache_load E c (world r) q)))"

text \<open>The cache the compute phase saves to: none when the provider does not persist.\<close>

definition effective_cache :: "('v, 'w) resolver \<Rightarrow> 'v prepared \<Rightarrow> 'v option" where
  "effective_cache r p = (if should_persist (p_provider p) then persistent_cache r else None)"

text \<open>The events a call has added to the trace of \<open>r\<close>, given the resolver it returned.\<close>

definition new_events :: "('v, 'w) resolver \<Rightarrow> ('v, 'w) resolver \<Rightarrow> 'v event list" where
  "new_events r r' = drop (length (trace r)) (trace r')"

text \<open>
  The store after the values of \<open>vqs\<close> have been saved in order, and the result
  reloaded for the \<open>j\<close>-th of them, right after it was saved.
\<close>

definition saves_applied ::
  "('v, 'w) env \<Rightarrow> 'v \<Rightarrow> ('v \<times> 'v query \<times> string) list \<Rightarrow> 'w \<Rightarrow> 'w" where
  "saves_applied E c vqs w =
     foldl (\<lambda>w (v, q, s). cache_save E c w \<lparr>result_query = q, result_value = v\<rparr>) w vqs"

definition reloaded ::
  "('v, 'w) env \<Rightarrow> 'v \<Rightarrow> ('v \<times> 'v query \<times> string) list \<Rightarrow> 'w \<Rightarrow> nat \<Rightarrow> 'v result option" where
  "reloaded E c vqs w j =
     cache_load E c (saves_applied E c (take (Suc j) vqs) w) (fst (snd (vqs ! j)))"

text \<open>The events of one computed value of a persisted task, and of one cache hit.\<close>

definition store_events :: "bool \<Rightarrow> 'v \<times> 'v query \<times> string \<Rightarrow> 'v event list" where
  "store_events simple vqs =
     (case vqs of (v, q, s) \<Rightarrow>
        [EvValidate q v,
         EvSave \<lparr>result_query = q, result_value = v\<rparr>,
         EvLoad q,
         EvLog INFO (if simple then ''Accessed  '' @ s @ '' from definition''
                     else ''Computed  '' @ s)])"

definition hit_events :: "'v query \<times> string \<Rightarrow> 'v event list" where
  "hit_events qs =
     (case qs of (q, s) \<Rightarrow> [EvLoad q, EvLog INFO (''Loaded    '' @ s @ '' from file cache'')])"

text \<open>
  The resolver right after the call of line 328: the \<^verbatim>\<open>Computing\<close> messages have
  been logged and \<^verbatim>\<open>task.compute\<close> has been called.
\<close>

definition compute_called :: "nat \<Rightarrow> 'v prepared \<Rightarrow> ('v, 'w) resolver \<Rightarrow> ('v, 'w) resolver" where
  "compute_called i p r =
     emit (EvCompute i (map result_value (p_dep_results p)))
       (if is_simple_lookup (task (states r ! i)) then r
        else fold (\<lambda>task_str. log (''Computing '' @ task_str @ '' ...'')) (p_strs p) r)"

section \<open>Example flows\<close>

text \<open>
  Values are integers or the cache object. The example cache keeps results in an
  association list by entity name and stores the magnitude of an integer, so that a
  reloaded value can differ from the computed one.
\<close>

datatype val = IntV int | CacheV

definition stored_form :: "val \<Rightarrow> val" where
  "stored_form v = (case v of IntV n \<Rightarrow> IntV (abs n) | CacheV \<Rightarrow> CacheV)"

type_synonym store = "(string \<times> val result) list"

definition ex_env :: "(val, store) env" where
  "ex_env =
     \<lparr>recursion_limit = 20,
      cache_load = (\<lambda>c w q. map_of w (query_name q)),
      cache_save = (\<lambda>c w res.
        (query_name (result_query res), res\<lparr>result_value := stored_form (result_value res)\<rparr>) # w)\<rparr>"

definition accept_all :: "val protocol" where
  "accept_all = \<lparr>validate = (\<lambda>v. True)\<rparr>"

definition positive_only :: "val protocol" where
  "positive_only = \<lparr>validate = (\<lambda>v. case v of IntV n \<Rightarrow> 0 < n | CacheV \<Rightarrow> False)\<rparr>"

text \<open>
  A provider of the entities \<open>ns\<close> with one task per case key; each task has one key
  per name in \<open>ks\<close> (the provider's names, except in the example of a task whose keys
  differ from them) and depends on every task key of the dependencies.
\<close>

definition ex_provider ::
  "nat \<Rightarrow> string list \<Rightarrow> string list \<Rightarrow> bool \<Rightarrow> string list \<Rightarrow> case_key list \<Rightarrow>
   (val list \<Rightarrow> error + val list) \<Rightarrow> val protocol \<Rightarrow> val provider" where
  "ex_provider i ns ks persist deps cases f proto =
     \<lparr>oid = i, names = ns, should_persist = persist, get_dependency_names = deps,
      get_key_space = (\<lambda>dep_key_spaces. cases),
      get_tasks = (\<lambda>dep_key_spaces dep_task_keys.
        map (\<lambda>ck. \<lparr>keys = map (\<lambda>n. TaskKey n ck) ks,
                    dep_keys = concat (map snd dep_task_keys),
                    compute = f,
                    is_simple_lookup = (deps = [])\<rparr>) cases),
      get_code_id = (\<lambda>ck. ''v1''),
      protocol_for_name = (\<lambda>n. proto)\<rparr>"

definition const_value :: "val \<Rightarrow> val list \<Rightarrow> error + val list" where
  "const_value v dep_values = Inr [v]"

definition times_minus_three :: "val list \<Rightarrow> error + val list" where
  "times_minus_three dep_values =
     (case dep_values of [IntV a] \<Rightarrow> Inr [IntV (a * (- 3))] | _ \<Rightarrow> Inl (ComputeError ''b''))"

definition succ_pair :: "val list \<Rightarrow> error + val list" where
  "succ_pair dep_values =
     (case dep_values of [IntV b] \<Rightarrow> Inr [IntV (b + 1), IntV (b + 2)]
      | _ \<Rightarrow> Inl (ComputeError ''uv''))"

definition cache_provider :: "val provider" where
  "cache_provider =
     ex_provider 0 [''core__persistent_cache''] [''core__persistent_cache''] False [] [[]]
       (const_value CacheV) accept_all"

text \<open>
  The chain \<open>a\<close>, \<open>b\<close> (persisted, computed from \<open>a\<close>) and the joint outputs
  \<open>u\<close> and \<open>v\<close> of one provider, computed from \<open>b\<close>.
\<close>

definition uv_provider :: "val provider" where
  "uv_provider = ex_provider 3 [''u'', ''v''] [''u'', ''v''] False [''b''] [[]] succ_pair accept_all"

definition chain_flow :: "val flow_state" where
  "chain_flow =
     \<lparr>providers_by_name =
        [(''core__persistent_cache'', cache_provider),
         (''u'', uv_provider),
         (''v'', uv_provider),
         (''b'', ex_provider 2 [''b''] [''b''] True [''a''] [[]] times_minus_three accept_all),
         (''a'', ex_provider 1 [''a''] [''a''] False [] [[]] (const_value (IntV 2)) accept_all)]\<rparr>"

text \<open>An entity whose computed value its protocol rejects.\<close>

definition reject_flow :: "val flow_state" where
  "reject_flow =
     \<lparr>providers_by_name =
        [(''core__persistent_cache'', cache_provider),
         (''x'', ex_provider 1 [''x''] [''x''] False [] [[]] (const_value (IntV 0)) positive_only)]\<rparr>"

text \<open>A provider that declares two names while its task has one key and returns one value.\<close>

definition mismatch_flow :: "val flow_state" where
  "mismatch_flow =
     \<lparr>providers_by_name =
        [(''core__persistent_cache'', cache_provider),
         (''w'', ex_provider 1 [''w'', ''w2''] [''w''] False [] [[]] (const_value (IntV 7)) accept_all)]\<rparr>"

text \<open>Two entities that depend on each other.\<close>

definition cyclic_flow :: "val flow_state" where
  "cyclic_flow =
     \<lparr>providers_by_name =
        [(''core__persistent_cache'', cache_provider),
         (''a'', ex_provider 1 [''a''] [''a''] False [''b''] [[]] (const_value (IntV 1)) accept_all),
         (''b'', ex_provider 2 [''b''] [''b''] False [''a''] [[]] (const_value (IntV 2)) accept_all)]\<rparr>"

text \<open>An internal entity that depends on a user entity.\<close>

definition core_dep_flow :: "val flow_state" where
  "core_dep_flow =
     \<lparr>providers_by_name =
        [(''x'', ex_provider 1 [''x''] [''x''] False [] [[]] (const_value (IntV 5)) accept_all),
         (''core__persistent_cache'',
          ex_provider 0 [''core__persistent_cache''] [''core__persistent_cache''] False [''x'']
            [[]] (const_value CacheV) accept_all)]\<rparr>"

text \<open>The cache entity defined over no case, and over two cases.\<close>

definition no_cache_flow :: "val flow_state" where
  "no_cache_flow =
     \<lparr>providers_by_name =
        [(''core__persistent_cache'',
          ex_provider 0 [''core__persistent_cache''] [''core__persistent_cache''] False [] []
            (const_value CacheV) accept_all)]\<rparr>"

definition two_caches_flow :: "val flow_state" where
  "two_caches_flow =
     \<lparr>providers_by_name =
        [(''core__persistent_cache'',
          ex_provider 0 [''core__persistent_cache''] [''core__persistent_cache''] False []
            [[(''n'', ''1'')], [(''n'', ''2'')]] (const_value CacheV) accept_all)]\<rparr>"

text \<open>A store that already holds a result for \<open>b\<close>.\<close>

definition stored_b :: store where
  "stored_b =
     [(''b'',
       \<lparr>result_query =
          \<lparr>query_name = ''b'', query_protocol = accept_all, query_case_key = [],
           query_provenance = Provenance ''v1'' [] [(''a'', Provenance ''v1'' [] [])]\<rparr>,
        result_value = IntV 6\<rparr>)]"

text \<open>The resolver of a flow over a store after one \<^verbatim>\<open>resolve\<close>, if it returns.\<close>

definition resolved :: "val flow_state \<Rightarrow> store \<Rightarrow> string \<Rightarrow> (val, store) resolver option" where
  "resolved fs w n = map_option snd (resolve ex_env n (init_resolver fs w))"

text \<open>A resolver after the graph of a flow has been built.\<close>

definition built_resolver :: "val flow_state \<Rightarrow> (val, store) resolver" where
  "built_resolver fs = snd (get_ready_for_bootstrap_resolution ex_env (init_resolver fs []))"

text \<open>A resolver after \<^verbatim>\<open>get_ready\<close> has returned, if it does.\<close>

definition ready_resolver :: "val flow_state \<Rightarrow> (val, store) resolver option" where
  "ready_resolver fs = map_option snd (get_ready ex_env (init_resolver fs []))"

text \<open>
  The dependency relation of a registry: \<open>(n, m)\<close> when the provider registered for
  \<open>n\<close> names \<open>m\<close> as a dependency.
\<close>

definition deps_of :: "'v flow_state \<Rightarrow> string \<Rightarrow> string list" where
  "deps_of fs n =
     (case map_of (providers_by_name fs) n of
        None \<Rightarrow> []
      | Some p \<Rightarrow> get_dependency_names p)"

definition dep_rel :: "'v flow_state \<Rightarrow> (string \<times> string) set" where
  "dep_rel fs = {(n, m). m \<in> set (deps_of fs n)}"

text \<open>An entity that transitively depends on itself.\<close>

definition on_cycle :: "'v flow_state \<Rightarrow> string \<Rightarrow> bool" where
  "on_cycle fs n \<longleftrightarrow> (n, n) \<in> (dep_rel fs)\<^sup>+"

text \<open>No entity on a cycle has its task list yet.\<close>

definition cycle_free_done :: "('v, 'w) resolver \<Rightarrow> bool" where
  "cycle_free_done r \<longleftrightarrow>
     (\<forall>m \<in> fst ` set (task_lists_by_entity_name r). \<not> on_cycle (flow_state r) m)"

text \<open>What populating entities keeps: the flow, the two readiness flags, and the above.\<close>

definition build_step :: "('v, 'w) resolver \<Rightarrow> ('v, 'w) resolver \<Rightarrow> bool" where
  "build_step r r' \<longleftrightarrow>
     flow_state r' = flow_state r \<and>
     is_ready_for_bootstrap_resolution r' = is_ready_for_bootstrap_resolution r \<and>
     is_ready_for_full_resolution r' = is_ready_for_full_resolution r \<and>
     cycle_free_done r'"

section \<open>Properties\<close>

lemma same_graph_refl [simp]: "same_graph r r"
  by (simp add: same_graph_def)

lemma same_graph_trans: "same_graph r r' \<Longrightarrow> same_graph r' r'' \<Longrightarrow> same_graph r r''"
  by (simp add: same_graph_def)

lemma keeps_results_refl [simp]: "keeps_results r r"
  by (simp add: keeps_results_def)

lemma keeps_results_trans: "keeps_results r r' \<Longrightarrow> keeps_results r' r'' \<Longrightarrow> keeps_results r r''"
  by (simp add: keeps_results_def)

lemma emit_fields [simp]:
  "flow_state (emit e r) = flow_state r"
  "is_ready_for_bootstrap_resolution (emit e r) = is_ready_for_bootstrap_resolution r"
  "key_spaces_by_entity_name (emit e r) = key_spaces_by_entity_name r"
  "task_lists_by_entity_name (emit e r) = task_lists_by_entity_name r"
  "task_states_by_key (emit e r) = task_states_by_key r"
  "is_ready_for_full_resolution (emit e r) = is_ready_for_full_resolution r"
  "persistent_cache (emit e r) = persistent_cache r"
  "states (emit e r) = states r"
  "world (emit e r) = world r"
  "trace (emit e r) = trace r @ [e]"
  by (simp_all add: emit_def)

lemma log_fields [simp]:
  "flow_state (log s r) = flow_state r"
  "is_ready_for_bootstrap_resolution (log s r) = is_ready_for_bootstrap_resolution r"
  "key_spaces_by_entity_name (log s r) = key_spaces_by_entity_name r"
  "task_lists_by_entity_name (log s r) = task_lists_by_entity_name r"
  "task_states_by_key (log s r) = task_states_by_key r"
  "is_ready_for_full_resolution (log s r) = is_ready_for_full_resolution r"
  "persistent_cache (log s r) = persistent_cache r"
  "states (log s r) = states r"
  "world (log s r) = world r"
  "trace (log s r) =
     trace r @ [EvLog (if is_ready_for_full_resolution r then INFO else DEBUG) s]"
  by (simp_all add: log_def)

lemma same_graph_emit [simp]: "same_graph r (emit e r)"
  by (simp add: same_graph_def)

lemma same_graph_log [simp]: "same_graph r (log s r)"
  by (simp add: same_graph_def)

lemma is_complete_cong: "states r' = states r \<Longrightarrow> is_complete r' = is_complete r"
  by (rule ext) (simp add: is_complete_def)

lemma is_blocked_cong: "states r' = states r \<Longrightarrow> is_blocked r' = is_blocked r"
  by (rule ext) (simp add: is_blocked_def is_complete_cong [of r' r])

lemma fold_log_fields [simp]:
  "flow_state (fold (\<lambda>s. log (f s)) xs r) = flow_state r"
  "is_ready_for_bootstrap_resolution (fold (\<lambda>s. log (f s)) xs r) = is_ready_for_bootstrap_resolution r"
  "key_spaces_by_entity_name (fold (\<lambda>s. log (f s)) xs r) = key_spaces_by_entity_name r"
  "task_lists_by_entity_name (fold (\<lambda>s. log (f s)) xs r) = task_lists_by_entity_name r"
  "task_states_by_key (fold (\<lambda>s. log (f s)) xs r) = task_states_by_key r"
  "is_ready_for_full_resolution (fold (\<lambda>s. log (f s)) xs r) = is_ready_for_full_resolution r"
  "persistent_cache (fold (\<lambda>s. log (f s)) xs r) = persistent_cache r"
  "states (fold (\<lambda>s. log (f s)) xs r) = states r"
  "world (fold (\<lambda>s. log (f s)) xs r) = world r"
  by (induction xs arbitrary: r; simp)+

text \<open>What a sub-step may change: the world and the trace only.\<close>


lemma only_io_refl [simp]: "only_io r r"
  by (simp add: only_io_def)

lemma only_io_trans: "only_io r r' \<Longrightarrow> only_io r' r'' \<Longrightarrow> only_io r r''"
  by (simp add: only_io_def)

lemma only_io_emit [simp]: "only_io r (emit e r)"
  by (simp add: only_io_def)

lemma only_io_log [simp]: "only_io r (log s r)"
  by (simp add: only_io_def)

lemma only_io_world [simp]: "only_io r (r\<lparr>world := w\<rparr>)"
  by (simp add: only_io_def)

lemma only_io_fields:
  assumes "only_io r r'"
  shows "flow_state r' = flow_state r"
    "is_ready_for_bootstrap_resolution r' = is_ready_for_bootstrap_resolution r"
    "key_spaces_by_entity_name r' = key_spaces_by_entity_name r"
    "task_lists_by_entity_name r' = task_lists_by_entity_name r"
    "task_states_by_key r' = task_states_by_key r"
    "is_ready_for_full_resolution r' = is_ready_for_full_resolution r"
    "persistent_cache r' = persistent_cache r"
    "states r' = states r"
  using assms unfolding only_io_def by auto

lemma only_io_same_graph: "only_io r r' \<Longrightarrow> same_graph r r'"
  by (simp add: only_io_def same_graph_def)

lemma only_io_fold_log [simp]: "only_io r (fold (\<lambda>s. log (f s)) xs r)"
proof (induction xs arbitrary: r)
  case Nil show ?case by simp
next
  case (Cons x xs)
  have "only_io r (log (f x) r)" by simp
  from only_io_trans [OF this Cons [of "log (f x) r"]] show ?case by simp
qed

lemma load_results_only_io:
  "load_results E c qs acc r = (x, r') \<Longrightarrow> only_io r r'"
proof (induction qs arbitrary: acc r)
  case Nil then show ?case by simp
next
  case (Cons a qs)
  obtain q s where a: "a = (q, s)" by (cases a)
  show ?case
  proof (cases "cache_load E c (world r) q")
    case None
    with Cons.prems a show ?thesis by (auto simp: Let_def)
  next
    case (Some res)
    with Cons.prems a have
      "load_results E c qs (acc @ [Some res])
         (log (''Loaded    '' @ s @ '' from file cache'') (emit (EvLoad q) r)) = (x, r')"
      by (simp add: Let_def)
    from Cons.IH [OF this] have "only_io (log (''Loaded    '' @ s @ '' from file cache'') (emit (EvLoad q) r)) r'" .
    moreover have "only_io r (log (''Loaded    '' @ s @ '' from file cache'') (emit (EvLoad q) r))"
      by (rule only_io_trans [OF only_io_emit only_io_log])
    ultimately show ?thesis by (rule only_io_trans [rotated])
  qed
qed


lemma load_results_world: "load_results E c qs acc r = (x, r') \<Longrightarrow> world r' = world r"
proof (induction qs arbitrary: acc r)
  case Nil then show ?case by simp
next
  case (Cons a qs)
  obtain q s where a: "a = (q, s)" by (cases a)
  show ?case
  proof (cases "cache_load E c (world r) q")
    case None
    with Cons.prems a show ?thesis by (auto simp: Let_def)
  next
    case (Some res)
    with Cons.prems a have
      "load_results E c qs (acc @ [Some res])
         (log (''Loaded    '' @ s @ '' from file cache'') (emit (EvLoad q) r)) = (x, r')"
      by (simp add: Let_def)
    from Cons.IH [OF this] show ?thesis by simp
  qed
qed

lemma load_results_ready:
  "load_results E c qs acc r = ((b, l), r') \<Longrightarrow>
   b \<longleftrightarrow> (\<forall>q \<in> fst ` set qs. cache_load E c (world r) q \<noteq> None)"
proof (induction qs arbitrary: acc r)
  case Nil then show ?case by simp
next
  case (Cons a qs)
  obtain q s where a: "a = (q, s)" by (cases a)
  show ?case
  proof (cases "cache_load E c (world r) q")
    case None
    with Cons.prems a show ?thesis by (auto simp: Let_def)
  next
    case (Some res)
    with Cons.prems a have
      "load_results E c qs (acc @ [Some res])
         (log (''Loaded    '' @ s @ '' from file cache'') (emit (EvLoad q) r)) = ((b, l), r')"
      by (simp add: Let_def)
    from Cons.IH [OF this] Some a show ?thesis by simp
  qed
qed

text \<open>
  The evaluation of a prepared task reaches the compute phase (line 321 with
  \<^verbatim>\<open>results_ready\<close> false): the provider does not persist, or the resolver is
  full-ready with a cache and the cache has no result for one of the queries.
\<close>



lemma prepare_task_lengths:
  assumes "prepare_task r i = Inr p"
  shows "length (p_queries p) = length (keys (task (states r ! i)))"
    and "length (p_strs p) = length (keys (task (states r ! i)))"
    and "\<not> is_blocked r i"
  using assms unfolding prepare_task_def Let_def
  by (simp_all split: if_splits sum.splits option.splits) auto

lemma load_results_trace:
  "load_results E c qss acc r = (x, r') \<Longrightarrow>
   \<exists>pre. trace r' = trace r @ pre \<and> (\<forall>e \<in> set pre. is_EvLoad e \<or> is_EvLog e)"
proof (induction qss arbitrary: acc r)
  case Nil
  then show ?case by simp
next
  case (Cons a qss)
  obtain q s where a: "a = (q, s)" by (cases a)
  show ?case
  proof (cases "cache_load E c (world r) q")
    case None
    with Cons.prems a have "trace r' = trace r @ [EvLoad q]" by (auto simp: Let_def)
    then show ?thesis by simp
  next
    case (Some res)
    let ?r1 = "log (''Loaded    '' @ s @ '' from file cache'') (emit (EvLoad q) r)"
    from Cons.prems a Some have "load_results E c qss (acc @ [Some res]) ?r1 = (x, r')"
      by (simp add: Let_def)
    from Cons.IH [OF this] obtain pre where
      pre: "trace r' = trace ?r1 @ pre" "\<forall>e \<in> set pre. is_EvLoad e \<or> is_EvLog e" by blast
    let ?lvl = "if is_ready_for_full_resolution r then INFO else DEBUG"
    let ?pre = "[EvLoad q, EvLog ?lvl (''Loaded    '' @ s @ '' from file cache'')] @ pre"
    have "trace r' = trace r @ ?pre" using pre(1) by simp
    moreover have "\<forall>e \<in> set ?pre. is_EvLoad e \<or> is_EvLog e" using pre(2) by simp
    ultimately show ?thesis by blast
  qed
qed

lemma compute_task_state_reaches:
  assumes prep: "prepare_task r i = Inr p" and reach: "reaches_compute E r p"
  shows "\<exists>r1. only_io r r1 \<and> world r1 = world r \<and>
           compute_task_state E i r =
             finish_task i (keys (task (states r ! i)))
               (compute_phase E i p (effective_cache r p) r1) \<and>
           (\<exists>pre. trace r1 = trace r @ pre \<and> (\<forall>e \<in> set pre. is_EvLoad e \<or> is_EvLog e))"
proof (cases "should_persist (p_provider p)")
  case False
  have "compute_task_state E i r =
          finish_task i (keys (task (states r ! i)))
            (compute_phase E i p (effective_cache r p) r)"
    using False prep by (simp add: compute_task_state_def effective_cache_def)
  moreover have "\<exists>pre. trace r = trace r @ pre \<and> (\<forall>e \<in> set pre. is_EvLoad e \<or> is_EvLog e)"
    by (rule exI [of _ "[]"]) simp
  ultimately show ?thesis
    by (intro exI [of _ r] conjI only_io_refl refl)
next
  case True
  with reach obtain c q where c: "is_ready_for_full_resolution r" "persistent_cache r = Some c"
    and q: "q \<in> set (p_queries p)" "cache_load E c (world r) q = None"
    by (auto simp: reaches_compute_def Option.is_none_def split: option.splits)
  obtain b l r1 where lr: "load_results E c (zip (p_queries p) (p_strs p)) [] r = ((b, l), r1)"
    by (metis surj_pair)
  have len: "length (p_queries p) = length (p_strs p)"
    using prepare_task_lengths [OF prep] by simp
  have nb: "\<not> b"
  proof -
    have "fst ` set (zip (p_queries p) (p_strs p)) = set (p_queries p)"
      using map_fst_zip [OF len] by (metis set_map)
    with load_results_ready [OF lr] q show ?thesis by auto
  qed
  have io: "only_io r r1" using lr by (rule load_results_only_io)
  have w: "world r1 = world r" using lr by (rule load_results_world)
  have "compute_task_state E i r =
          finish_task i (keys (task (states r ! i)))
            (compute_phase E i p (effective_cache r p) r1)"
    using True prep c lr nb
    by (simp add: compute_task_state_def effective_cache_def)
  with io w load_results_trace [OF lr] show ?thesis
    by (intro exI [of _ r1] conjI)
qed

lemma compute_phase_mismatch:
  assumes "compute (task (states r ! i)) (map result_value (p_dep_results p)) = Inr tk_values"
    and "length tk_values \<noteq> length (names (p_provider p))"
  shows "fst (compute_phase E i p c r) = Inl AssertionError"
    and "states (snd (compute_phase E i p c r)) = states r"
    and "world (snd (compute_phase E i p c r)) = world r"
    and "last (trace (snd (compute_phase E i p c r))) =
           EvCompute i (map result_value (p_dep_results p))"
  using assms by (simp_all add: compute_phase_def Let_def)

text \<open>
  C10. When the compute phase is reached and \<^verbatim>\<open>task.compute\<close> returns a list whose
  length is not the number of names of the provider, \<^verbatim>\<open>_compute_task_state\<close> raises
  AssertionError right after the call: the call is the last event, no task state has
  changed (no result is installed, the state stays as complete as it was) and nothing
  was saved. The length of the task's own key list plays no part.
\<close>

theorem compute_length_mismatch_raises:
  assumes "prepare_task r i = Inr p"
    and "reaches_compute E r p"
    and "compute (task (states r ! i)) (map result_value (p_dep_results p)) = Inr tk_values"
    and "length tk_values \<noteq> length (names (p_provider p))"
  shows "fst (compute_task_state E i r) = Inl AssertionError \<and>
         states (snd (compute_task_state E i r)) = states r \<and>
         is_complete (snd (compute_task_state E i r)) i = is_complete r i \<and>
         world (snd (compute_task_state E i r)) = world r \<and>
         last (trace (snd (compute_task_state E i r))) =
           EvCompute i (map result_value (p_dep_results p))"
proof -
  obtain r1 where io: "only_io r r1" and w: "world r1 = world r"
    and eq: "compute_task_state E i r =
               finish_task i (keys (task (states r ! i)))
                 (compute_phase E i p (effective_cache r p) r1)"
    using compute_task_state_reaches [OF assms(1,2)] by blast
  have st: "states r1 = states r" using io by (rule only_io_fields)
  let ?cp = "compute_phase E i p (effective_cache r p) r1"
  have c: "compute (task (states r1 ! i)) (map result_value (p_dep_results p)) = Inr tk_values"
    using assms(3) st by simp
  note m = compute_phase_mismatch [OF c assms(4), of E "effective_cache r p"]
  have fin: "finish_task i (keys (task (states r ! i))) ?cp = (Inl AssertionError, snd ?cp)"
    using m(1) by (cases ?cp) (simp add: finish_task_def)
  have s': "states (snd (compute_task_state E i r)) = states r"
    using eq fin m(2) st by simp
  have ic: "is_complete (snd (compute_task_state E i r)) i = is_complete r i"
    using s' by (simp add: is_complete_def)
  show ?thesis
    using eq fin m st w s' ic by simp
qed

theorem compute_length_mismatch_raises_witness:
  "length (keys (task (states (built_resolver mismatch_flow) ! 1))) = 1 \<and>
   fst (compute_task_state ex_env 1 (built_resolver mismatch_flow)) = Inl AssertionError \<and>
   states (snd (compute_task_state ex_env 1 (built_resolver mismatch_flow))) =
     states (built_resolver mismatch_flow)"
proof -
  let ?r = "built_resolver mismatch_flow"
  let ?p = "projr (prepare_task ?r 1)"
  have "\<not> isl (prepare_task ?r 1)" by code_simp
  then have h1: "prepare_task ?r 1 = Inr ?p" by simp
  have "\<not> should_persist (p_provider ?p)" by code_simp
  then have h2: "reaches_compute ex_env ?r ?p" by (simp add: reaches_compute_def)
  have h3: "compute (task (states ?r ! 1)) (map result_value (p_dep_results ?p)) = Inr [IntV 7]"
    by code_simp
  have h4: "length [IntV 7] \<noteq> length (names (p_provider ?p))" by code_simp
  have k: "length (keys (task (states ?r ! 1))) = 1" by code_simp
  from compute_length_mismatch_raises [OF h1 h2 h3 h4] k show ?thesis by simp
qed

lemma store_results_only_io:
  "store_results E c simple vqs acc r = (x, r') \<Longrightarrow> only_io r r'"
proof (induction vqs arbitrary: acc r)
  case Nil then show ?case by simp
next
  case (Cons a vqs)
  obtain v q s where a: "a = (v, q, s)" by (cases a)
  show ?case
  proof (cases "validate (query_protocol q) v")
    case False
    with Cons.prems a show ?thesis by (auto simp: Let_def)
  next
    case True
    show ?thesis
    proof (cases c)
      case None
      with Cons.prems a True obtain acc' r1 where
        "store_results E c simple vqs acc' r1 = (x, r')" "only_io r r1"
        by (simp add: Let_def only_io_def)
      with Cons.IH show ?thesis by (blast intro: only_io_trans)
    next
      case (Some ch)
      with Cons.prems a True obtain acc' r1 where
        "store_results E c simple vqs acc' r1 = (x, r')" "only_io r r1"
        by (simp add: Let_def only_io_def)
      with Cons.IH show ?thesis by (blast intro: only_io_trans)
    qed
  qed
qed

lemma store_results_reject:
  assumes "\<exists>(v, q, s) \<in> set vqs. \<not> validate (query_protocol q) v"
  shows "\<exists>n. fst (store_results E c simple vqs acc r) = Inl (ProtocolValidationError n)"
  using assms
proof (induction vqs arbitrary: acc r)
  case Nil then show ?case by simp
next
  case (Cons a vqs)
  obtain v q s where a: "a = (v, q, s)" by (cases a)
  show ?case
  proof (cases "validate (query_protocol q) v")
    case False
    with a show ?thesis by (simp add: Let_def)
  next
    case True
    with Cons.prems a have ex: "\<exists>(v, q, s) \<in> set vqs. \<not> validate (query_protocol q) v" by auto
    show ?thesis
      using a True Cons.IH [OF ex]
      by (cases c) (simp_all add: Let_def)
  qed
qed


lemma compute_phase_only_io: "compute_phase E i p c r = (x, r') \<Longrightarrow> only_io r r'"
proof -
  assume a: "compute_phase E i p c r = (x, r')"
  let ?r1 = "if is_simple_lookup (task (states r ! i)) then r
             else fold (\<lambda>task_str. log (''Computing '' @ task_str @ '' ...'')) (p_strs p) r"
  let ?r2 = "emit (EvCompute i (map result_value (p_dep_results p))) ?r1"
  have io2: "only_io r ?r2"
    by (rule only_io_trans [of r ?r1]) simp_all
  show ?thesis
  proof (cases "compute (task (states r ! i)) (map result_value (p_dep_results p))")
    case (Inl e)
    with a have "r' = ?r2" by (simp add: compute_phase_def Let_def)
    with io2 show ?thesis by simp
  next
    case (Inr vs)
    show ?thesis
    proof (cases "length vs \<noteq> length (names (p_provider p))")
      case True
      with a Inr have "r' = ?r2" by (simp add: compute_phase_def Let_def)
      with io2 show ?thesis by simp
    next
      case False
      with a Inr have
        "store_results E c (is_simple_lookup (task (states r ! i)))
           (zip vs (zip (p_queries p) (p_strs p))) [] ?r2 = (x, r')"
        by (simp add: compute_phase_def Let_def)
      from store_results_only_io [OF this] io2 show ?thesis by (blast intro: only_io_trans)
    qed
  qed
qed

lemma compute_phase_reject:
  assumes "compute (task (states r ! i)) (map result_value (p_dep_results p)) = Inr vs"
    and "length vs = length (names (p_provider p))"
    and "length (p_strs p) = length (p_queries p)"
    and "j < length vs" "j < length (p_queries p)"
    and "\<not> validate (query_protocol (p_queries p ! j)) (vs ! j)"
  shows "\<exists>n. fst (compute_phase E i p c r) = Inl (ProtocolValidationError n)"
proof -
  let ?vqs = "zip vs (zip (p_queries p) (p_strs p))"
  have "j < length ?vqs" using assms by simp
  then have "?vqs ! j \<in> set ?vqs" by (rule nth_mem)
  moreover have "?vqs ! j = (vs ! j, p_queries p ! j, p_strs p ! j)" using assms by simp
  ultimately have "\<exists>(v, q, s) \<in> set ?vqs. \<not> validate (query_protocol q) v"
    using assms(6) by force
  note ex = this
  let ?r1 = "if is_simple_lookup (task (states r ! i)) then r
             else fold (\<lambda>task_str. log (''Computing '' @ task_str @ '' ...'')) (p_strs p) r"
  let ?r2 = "emit (EvCompute i (map result_value (p_dep_results p))) ?r1"
  have "compute_phase E i p c r =
          store_results E c (is_simple_lookup (task (states r ! i))) ?vqs [] ?r2"
    using assms(1,2) by (simp add: compute_phase_def Let_def)
  with store_results_reject [OF ex, of E c "is_simple_lookup (task (states r ! i))" "[]" ?r2]
  show ?thesis by simp
qed

lemma finish_task_Inl: "fst x = Inl e \<Longrightarrow> finish_task i ks x = (Inl e, snd x)"
  by (cases x) (simp add: finish_task_def)

lemma work_loop_error:
  assumes "ready_task_states ls \<noteq> []" "last (ready_task_states ls) = i"
    and "\<not> is_complete r i" "\<not> is_blocked r i"
    and "compute_task_state E i r = (Inl e, r')"
  shows "work_loop E ls r = Some (Inl e, r')"
  using assms by (subst work_loop.simps) (simp add: loop_body_def Let_def)

lemma resolve_ready:
  "is_ready_for_full_resolution r \<Longrightarrow>
   resolve E n r = compute_result_group_for_entity_name E n r"
  by (simp add: resolve_def get_ready_def get_ready_for_full_resolution_def)

lemma compute_result_group_error:
  assumes "requested_task_states r n = Inr req"
    and "work_loop E (initial_loop_state req) r = Some (Inl e, r')"
  shows "compute_result_group_for_entity_name E n r = Some (Inl e, r')"
  using assms by (simp add: compute_result_group_for_entity_name_def)

text \<open>
  C8. When the compute phase is reached, the task returns as many values as its
  provider has names, and the protocol of some query rejects its value, then
  \<^verbatim>\<open>_compute_task_state\<close> raises a protocol validation error and leaves every task
  state as it was: the state evaluated is not marked complete. The work-list loop that
  evaluates this state returns the error, and so does \<^verbatim>\<open>resolve\<close> of an entity whose
  last task state it is.
\<close>

theorem validation_failure_raises:
  assumes "prepare_task r i = Inr p"
    and "reaches_compute E r p"
    and "compute (task (states r ! i)) (map result_value (p_dep_results p)) = Inr tk_values"
    and "length tk_values = length (names (p_provider p))"
    and "j < length tk_values" "j < length (p_queries p)"
    and "\<not> validate (query_protocol (p_queries p ! j)) (tk_values ! j)"
  shows "\<exists>n r'. compute_task_state E i r = (Inl (ProtocolValidationError n), r') \<and>
           states r' = states r \<and>
           (\<not> is_complete r i \<longrightarrow> results_by_name (states r' ! i) = None \<and> \<not> is_complete r' i) \<and>
           (\<forall>ls. ready_task_states ls \<noteq> [] \<and> last (ready_task_states ls) = i \<and>
                 \<not> is_complete r i \<longrightarrow>
                 work_loop E ls r = Some (Inl (ProtocolValidationError n), r')) \<and>
           (\<forall>name req. is_ready_for_full_resolution r \<and>
                 requested_task_states r name = Inr req \<and> req \<noteq> [] \<and> last req = i \<and>
                 \<not> is_complete r i \<longrightarrow>
                 resolve E name r = Some (Inl (ProtocolValidationError n), r'))"
proof -
  obtain r1 where io: "only_io r r1"
    and eq: "compute_task_state E i r =
               finish_task i (keys (task (states r ! i)))
                 (compute_phase E i p (effective_cache r p) r1)"
    using compute_task_state_reaches [OF assms(1,2)] by blast
  have st: "states r1 = states r" using io by (rule only_io_fields)
  let ?cp = "compute_phase E i p (effective_cache r p) r1"
  have c: "compute (task (states r1 ! i)) (map result_value (p_dep_results p)) = Inr tk_values"
    using assms(3) st by simp
  have len: "length (p_strs p) = length (p_queries p)"
    using prepare_task_lengths [OF assms(1)] by simp
  obtain n where n: "fst ?cp = Inl (ProtocolValidationError n)"
    using compute_phase_reject [OF c assms(4) len assms(5,6,7)] by blast
  let ?r' = "snd ?cp"
  have res: "compute_task_state E i r = (Inl (ProtocolValidationError n), ?r')"
    using eq finish_task_Inl [OF n] by simp
  have "only_io r1 ?r'" by (rule compute_phase_only_io [of E i p "effective_cache r p" r1 "fst ?cp"]) simp
  then have "states ?r' = states r1" by (rule only_io_fields)
  with st have st': "states ?r' = states r" by simp
  have nb: "\<not> is_blocked r i" using prepare_task_lengths [OF assms(1)] by simp
  have a: "\<not> is_complete r i \<longrightarrow> results_by_name (states ?r' ! i) = None \<and> \<not> is_complete ?r' i"
    using st' by (simp add: is_complete_def)
  have b: "\<forall>ls. ready_task_states ls \<noteq> [] \<and> last (ready_task_states ls) = i \<and>
                 \<not> is_complete r i \<longrightarrow>
                 work_loop E ls r = Some (Inl (ProtocolValidationError n), ?r')"
    using work_loop_error [OF _ _ _ nb res] by blast
  have d: "\<forall>name req. is_ready_for_full_resolution r \<and>
                 requested_task_states r name = Inr req \<and> req \<noteq> [] \<and> last req = i \<and>
                 \<not> is_complete r i \<longrightarrow>
                 resolve E name r = Some (Inl (ProtocolValidationError n), ?r')"
  proof (intro allI impI)
    fix name req
    assume h: "is_ready_for_full_resolution r \<and>
                 requested_task_states r name = Inr req \<and> req \<noteq> [] \<and> last req = i \<and>
                 \<not> is_complete r i"
    then have "work_loop E (initial_loop_state req) r =
                 Some (Inl (ProtocolValidationError n), ?r')"
      using b by (simp add: initial_loop_state_def)
    with h show "resolve E name r = Some (Inl (ProtocolValidationError n), ?r')"
      by (simp add: resolve_ready compute_result_group_error)
  qed
  from res st' a b d show ?thesis by blast
qed

theorem validation_failure_raises_witness:
  "\<exists>n r'. resolve ex_env ''x'' (the (ready_resolver reject_flow)) =
             Some (Inl (ProtocolValidationError n), r') \<and>
          \<not> is_complete r' 1"
proof -
  let ?r = "the (ready_resolver reject_flow)"
  let ?p = "projr (prepare_task ?r 1)"
  have "\<not> isl (prepare_task ?r 1)" by code_simp
  then have h1: "prepare_task ?r 1 = Inr ?p" by simp
  have "\<not> should_persist (p_provider ?p)" by code_simp
  then have h2: "reaches_compute ex_env ?r ?p" by (simp add: reaches_compute_def)
  have h3: "compute (task (states ?r ! 1)) (map result_value (p_dep_results ?p)) = Inr [IntV 0]"
    by code_simp
  have h4: "length [IntV 0] = length (names (p_provider ?p))" by code_simp
  have h5: "0 < length [IntV 0]" by simp
  have h6: "0 < length (p_queries ?p)" by code_simp
  have h7: "\<not> validate (query_protocol (p_queries ?p ! 0)) ([IntV 0] ! 0)" by code_simp
  have f: "is_ready_for_full_resolution ?r" by code_simp
  have q: "requested_task_states ?r ''x'' = Inr [1]" by code_simp
  have nc: "\<not> is_complete ?r 1" by code_simp
  from validation_failure_raises [OF h1 h2 h3 h4 h5 h6 h7] f q nc show ?thesis
    by fastforce
qed

text \<open>
  C9, at a flow whose internal entity \<open>core__persistent_cache\<close> depends on the user
  entity \<open>x\<close>: \<^verbatim>\<open>export_dag(include_core=False)\<close> returns a graph with the edge from
  \<open>x\<close> to the internal entity, and with the internal entity as a node.
\<close>

theorem export_dag_keeps_edge_into_internal:
  "entity_is_internal ''core__persistent_cache'' \<and>
   (\<exists>g r'. export_dag ex_env False (init_resolver core_dep_flow []) = Some (Inr g, r') \<and>
      (TaskKey ''x'' [], TaskKey ''core__persistent_cache'' []) \<in> set (dag_edges g) \<and>
      TaskKey ''core__persistent_cache'' [] \<in> fst ` set (dag_nodes g))"
proof -
  have "case export_dag ex_env False (init_resolver core_dep_flow []) of
          Some (Inr g, r') \<Rightarrow>
            (TaskKey ''x'' [], TaskKey ''core__persistent_cache'' []) \<in> set (dag_edges g) \<and>
            TaskKey ''core__persistent_cache'' [] \<in> fst ` set (dag_nodes g)
        | _ \<Rightarrow> False"
    by code_simp
  moreover have "entity_is_internal ''core__persistent_cache''" by code_simp
  ultimately show ?thesis
    by (auto split: option.splits sum.splits prod.splits)
qed

text \<open>
  C4, at a flow in which \<open>a\<close> and \<open>b\<close> depend on each other: \<^verbatim>\<open>get_ready\<close> ends
  with the interpreter's RecursionError, raised when the recursion limit is reached.
\<close>

theorem cyclic_flow_recursion_error:
  "map_option fst (get_ready ex_env (init_resolver cyclic_flow [])) = Some (Inl RecursionError)"
  by code_simp


lemma dict_set_keys: "fst ` set (dict_set k v al) = insert k (fst ` set al)"
proof (induction al)
  case Nil
  show ?case by simp
next
  case (Cons a al)
  obtain k' v' where a: "a = (k', v')" by (cases a)
  show ?case
  proof (cases "k' = k")
    case True
    with a show ?thesis by simp
  next
    case False
    with a Cons.IH show ?thesis by (simp add: insert_commute)
  qed
qed

lemma on_cycle_dep:
  assumes "on_cycle fs n"
  shows "\<exists>m \<in> set (deps_of fs n). on_cycle fs m"
proof -
  from assms have "(n, n) \<in> (dep_rel fs)\<^sup>+" by (simp add: on_cycle_def)
  then obtain m where m: "(n, m) \<in> dep_rel fs" "(m, n) \<in> (dep_rel fs)\<^sup>*"
    by (blast dest: tranclD)
  then have "(m, m) \<in> (dep_rel fs)\<^sup>+" by (rule_tac rtrancl_into_trancl1)
  with m(1) show ?thesis by (auto simp: on_cycle_def dep_rel_def)
qed

lemma get_provider_deps:
  "get_provider fs n = Inr p \<Longrightarrow> deps_of fs n = get_dependency_names p"
  by (auto simp: get_provider_def deps_of_def split: option.splits)

lemma populate_deps_cycle:
  fixes r :: "('v, 'w) resolver"
  assumes A: "\<And>n (r :: ('v, 'w) resolver) x r'.
                cycle_free_done r \<Longrightarrow> populate_entity_info d n r = (x, r') \<Longrightarrow>
                build_step r r' \<and> (on_cycle (flow_state r) n \<longrightarrow> isl x)"
  shows "cycle_free_done r \<Longrightarrow> populate_deps d ns r = (x, r') \<Longrightarrow>
         build_step r r' \<and> ((\<exists>m \<in> set ns. on_cycle (flow_state r) m) \<longrightarrow> isl x)"
proof (induction ns arbitrary: r)
  case Nil
  then show ?case by (simp add: build_step_def)
next
  case (Cons a ns)
  obtain y r1 where y: "populate_entity_info d a r = (y, r1)" by (cases "populate_entity_info d a r")
  from A [OF Cons.prems(1) y] have s1: "build_step r r1" and c1: "on_cycle (flow_state r) a \<longrightarrow> isl y"
    by simp_all
  show ?case
  proof (cases y)
    case (Inl e)
    with Cons.prems(2) y have "x = Inl e" "r' = r1" by simp_all
    with s1 show ?thesis by simp
  next
    case (Inr u)
    with Cons.prems(2) y have rest: "populate_deps d ns r1 = (x, r')" by simp
    from s1 have cf: "cycle_free_done r1" and fs: "flow_state r1 = flow_state r"
      by (simp_all add: build_step_def)
    from Cons.IH [OF cf rest] have s2: "build_step r1 r'"
      and c2: "(\<exists>m \<in> set ns. on_cycle (flow_state r1) m) \<longrightarrow> isl x" by simp_all
    from s1 s2 have "build_step r r'" by (simp add: build_step_def)
    moreover from c1 Inr have "\<not> on_cycle (flow_state r) a" by auto
    ultimately show ?thesis using c2 fs by auto
  qed
qed

lemma populate_entity_info_cycle:
  "cycle_free_done r \<Longrightarrow> populate_entity_info d n r = (x, r') \<Longrightarrow>
   build_step r r' \<and> (on_cycle (flow_state r) n \<longrightarrow> isl x)"
proof (induction d arbitrary: n r x r')
  case 0
  then show ?case by (auto simp: build_step_def)
next
  case (Suc d)
  have B: "build_step r0 r1 \<and> ((\<exists>m \<in> set ns. on_cycle (flow_state r0) m) \<longrightarrow> isl y)"
    if "cycle_free_done r0" "populate_deps d ns r0 = (y, r1)"
    for ns and r0 r1 :: "('a, 'b) resolver" and y
  proof (rule populate_deps_cycle [where d = d])
    fix n and r :: "('a, 'b) resolver" and x r'
    assume "cycle_free_done r" "populate_entity_info d n r = (x, r')"
    then show "build_step r r' \<and> (on_cycle (flow_state r) n \<longrightarrow> isl x)" by (rule Suc.IH)
  qed (fact that)+
  show ?case
  proof (cases "n \<in> fst ` set (task_lists_by_entity_name r)")
    case True
    with Suc.prems show ?thesis by (auto simp: build_step_def cycle_free_done_def)
  next
    case False
    show ?thesis
    proof (cases "get_provider (flow_state r) n")
      case (Inl e)
      with False Suc.prems show ?thesis by (auto simp: build_step_def)
    next
      case (Inr provider)
      obtain y r1 where y: "populate_deps d (get_dependency_names provider) r = (y, r1)"
        by (cases "populate_deps d (get_dependency_names provider) r")
      from B [OF Suc.prems(1) y] have s1: "build_step r r1"
        and c1: "(\<exists>m \<in> set (get_dependency_names provider). on_cycle (flow_state r) m) \<longrightarrow> isl y"
        by simp_all
      show ?thesis
      proof (cases y)
        case (Inl e)
        with False Inr y Suc.prems(2) have "x = Inl e" "r' = r1" by (simp_all add: Let_def)
        with s1 show ?thesis by simp
      next
        case u: (Inr u)
        with c1 have "\<not> (\<exists>m \<in> set (get_dependency_names provider). on_cycle (flow_state r) m)"
          by auto
        with on_cycle_dep [of "flow_state r" n] get_provider_deps [OF Inr]
        have nc: "\<not> on_cycle (flow_state r) n" by auto
        from s1 have cf: "cycle_free_done r1" and fs: "flow_state r1 = flow_state r"
          and f1: "is_ready_for_bootstrap_resolution r1 = is_ready_for_bootstrap_resolution r"
          and f2: "is_ready_for_full_resolution r1 = is_ready_for_full_resolution r"
          by (simp_all add: build_step_def)
        have "r' = r1 \<or>
              (\<exists>ks ts. r' = r1\<lparr>key_spaces_by_entity_name := ks,
                               task_lists_by_entity_name :=
                                 dict_set n ts (task_lists_by_entity_name r1)\<rparr>)"
          using False Inr y u Suc.prems(2)
          by (simp add: Let_def split: sum.splits) blast
        then have "build_step r r'"
        proof
          assume "r' = r1" with s1 show ?thesis by simp
        next
          assume "\<exists>ks ts. r' = r1\<lparr>key_spaces_by_entity_name := ks,
                               task_lists_by_entity_name :=
                                 dict_set n ts (task_lists_by_entity_name r1)\<rparr>"
          then obtain ks ts where r': "r' = r1\<lparr>key_spaces_by_entity_name := ks,
                               task_lists_by_entity_name :=
                                 dict_set n ts (task_lists_by_entity_name r1)\<rparr>" by blast
          show ?thesis
            using cf fs f1 f2 nc unfolding r' build_step_def cycle_free_done_def
            by (simp add: dict_set_keys)
        qed
        with nc show ?thesis by simp
      qed
    qed
  qed
qed

lemma for_each_populate_cycle:
  "cycle_free_done r \<Longrightarrow> for_each (populate_entity_info d) ns r = (x, r') \<Longrightarrow>
   build_step r r' \<and> ((\<exists>m \<in> set ns. on_cycle (flow_state r) m) \<longrightarrow> isl x)"
proof (induction ns arbitrary: r)
  case Nil
  then show ?case by (simp add: build_step_def)
next
  case (Cons a ns)
  obtain y r1 where y: "populate_entity_info d a r = (y, r1)" by (cases "populate_entity_info d a r")
  from populate_entity_info_cycle [OF Cons.prems(1) y]
  have s1: "build_step r r1" and c1: "on_cycle (flow_state r) a \<longrightarrow> isl y"
    by simp_all
  show ?case
  proof (cases y)
    case (Inl e)
    with Cons.prems(2) y have "x = Inl e" "r' = r1" by simp_all
    with s1 show ?thesis by simp
  next
    case (Inr u)
    with Cons.prems(2) y have rest: "for_each (populate_entity_info d) ns r1 = (x, r')" by simp
    from s1 have cf: "cycle_free_done r1" and fs: "flow_state r1 = flow_state r"
      by (simp_all add: build_step_def)
    from Cons.IH [OF cf rest] have s2: "build_step r1 r'"
      and c2: "(\<exists>m \<in> set ns. on_cycle (flow_state r1) m) \<longrightarrow> isl x" by simp_all
    from s1 s2 have "build_step r r'" by (simp add: build_step_def)
    moreover from c1 Inr have "\<not> on_cycle (flow_state r) a" by auto
    ultimately show ?thesis using c2 fs by auto
  qed
qed

lemma on_cycle_registered:
  assumes "on_cycle fs n"
  shows "n \<in> set (map fst (providers_by_name fs))"
proof -
  from on_cycle_dep [OF assms] have "deps_of fs n \<noteq> []" by auto
  then obtain p where "map_of (providers_by_name fs) n = Some p"
    by (auto simp: deps_of_def split: option.splits)
  then show ?thesis by (auto dest: map_of_SomeD intro: rev_image_eqI)
qed


lemma build_fails_on_cycle:
  assumes nb: "\<not> is_ready_for_bootstrap_resolution r" and cyc: "on_cycle (flow_state r) n"
  shows "\<exists>e r'. get_ready_for_bootstrap_resolution E r = (Inl e, r') \<and>
           \<not> is_ready_for_bootstrap_resolution r' \<and>
           is_ready_for_full_resolution r' = is_ready_for_full_resolution r \<and>
           n \<notin> fst ` set (task_lists_by_entity_name r')"
proof -
  let ?r0 = "r\<lparr>key_spaces_by_entity_name := [], task_lists_by_entity_name := []\<rparr>"
  let ?ns = "map fst (providers_by_name (flow_state r))"
  obtain x r1 where x: "for_each (populate_entity_info (recursion_limit E)) ?ns ?r0 = (x, r1)"
    by (cases "for_each (populate_entity_info (recursion_limit E)) ?ns ?r0")
  have cf: "cycle_free_done ?r0" by (simp add: cycle_free_done_def)
  have "n \<in> set ?ns" using cyc by (rule on_cycle_registered)
  with cyc have ex: "\<exists>m \<in> set ?ns. on_cycle (flow_state ?r0) m" by auto
  from for_each_populate_cycle [OF cf x] ex have bs: "build_step ?r0 r1" and "isl x" by simp_all
  then obtain e where e: "x = Inl e" by (cases x) simp_all
  have res: "get_ready_for_bootstrap_resolution E r = (Inl e, r1)"
    using nb x e by (simp add: get_ready_for_bootstrap_resolution_def)
  from bs have "cycle_free_done r1" "flow_state r1 = flow_state r"
    by (simp_all add: build_step_def)
  with cyc have "n \<notin> fst ` set (task_lists_by_entity_name r1)"
    by (auto simp: cycle_free_done_def)
  with res bs nb show ?thesis by (simp add: build_step_def)
qed

text \<open>
  C4, as the code has it. \<^verbatim>\<open>_populate_entity_info\<close> has no cycle check. When a
  registered entity transitively depends on itself and the graph is not built yet, the
  build never completes, whatever the recursion limit: \<^verbatim>\<open>get_ready\<close> returns an
  exception, every \<^verbatim>\<open>resolve\<close> returns the same exception, the resolver stays neither
  bootstrap-ready nor full-ready, and the entity never gets a task list.
\<close>

theorem cyclic_registry_build_fails:
  assumes "\<not> is_ready_for_bootstrap_resolution r"
    and "\<not> is_ready_for_full_resolution r"
    and "on_cycle (flow_state r) n"
  shows "\<exists>e r'. get_ready E r = Some (Inl e, r') \<and>
           (\<forall>name. resolve E name r = Some (Inl e, r')) \<and>
           \<not> is_ready_for_bootstrap_resolution r' \<and>
           \<not> is_ready_for_full_resolution r' \<and>
           n \<notin> fst ` set (task_lists_by_entity_name r')"
proof -
  from build_fails_on_cycle [OF assms(1,3), of E] obtain e r' where
    b: "get_ready_for_bootstrap_resolution E r = (Inl e, r')"
    and f: "\<not> is_ready_for_bootstrap_resolution r'"
      "is_ready_for_full_resolution r' = is_ready_for_full_resolution r"
      "n \<notin> fst ` set (task_lists_by_entity_name r')"
    by blast
  have g: "get_ready E r = Some (Inl e, r')"
    using assms(2) b by (simp add: get_ready_def get_ready_for_full_resolution_def)
  then have "\<forall>name. resolve E name r = Some (Inl e, r')" by (simp add: resolve_def)
  with g f assms(2) show ?thesis by blast
qed

theorem cyclic_registry_build_fails_witness:
  "on_cycle cyclic_flow ''a'' \<and>
   (\<exists>e r'. get_ready ex_env (init_resolver cyclic_flow []) = Some (Inl e, r') \<and>
      resolve ex_env ''a'' (init_resolver cyclic_flow []) = Some (Inl e, r') \<and>
      \<not> is_ready_for_bootstrap_resolution r')"
proof -
  have ab: "(''a'', ''b'') \<in> dep_rel cyclic_flow"
    by (simp add: dep_rel_def deps_of_def cyclic_flow_def ex_provider_def)
  have ba: "(''b'', ''a'') \<in> dep_rel cyclic_flow"
    by (simp add: dep_rel_def deps_of_def cyclic_flow_def ex_provider_def)
  from ab ba have "(''a'', ''a'') \<in> (dep_rel cyclic_flow)\<^sup>+" by (rule trancl_into_trancl [OF r_into_trancl])
  then have c: "on_cycle cyclic_flow ''a''" by (simp add: on_cycle_def)
  let ?r = "init_resolver cyclic_flow ([] :: store)"
  have h1: "\<not> is_ready_for_bootstrap_resolution ?r" by (simp add: init_resolver_def)
  have h2: "\<not> is_ready_for_full_resolution ?r" by (simp add: init_resolver_def)
  have h3: "on_cycle (flow_state ?r) ''a''" using c by (simp add: init_resolver_def)
  from cyclic_registry_build_fails [OF h1 h2 h3, of ex_env] c show ?thesis by blast
qed

end
